theory Spec2Isabelle
  imports Complex_Main "HOL-Library.Word"
begin

unbundle bit_operations_syntax

section \<open>JavaScript numbers and typed arrays\<close>

text \<open>
  A JavaScript number is modelled as a real number or \<open>NaN\<close>. Whatever decides which
  samples are read and how many are produced is rounded to binary64 as the code computes
  it (\<open>toDouble\<close> below): the rate ratios, the output length and the window bounds of
  \<open>downsampleBuffer\<close>, and the position \<open>residue\<close> of the capture worklet. So is the PCM
  decoder, which rounds to binary64 and then to binary32 (\<open>fround\<close>); the product of a
  binary32 sample and 32767 or 32768 in the encoder is exact in binary64. The values of
  the samples themselves (sums, averages, interpolation, the RMS) are exact reals: the
  properties stated about them hold up to floating-point tolerance.
  \<open>\<plusminus>Infinity\<close> is not represented: the only divisions by zero in the modelled code have
  numerator 0 (an empty averaging window, an empty frame) and give \<open>NaN\<close>.
  A \<open>Float32Array\<close> is a \<open>jsnum list\<close>, an \<open>Int16Array\<close> a \<open>16 word list\<close>.
\<close>

datatype jsnum = Num real | NaN

fun js_add :: "jsnum \<Rightarrow> jsnum \<Rightarrow> jsnum" where
  "js_add (Num a) (Num b) = Num (a + b)"
| "js_add _ _ = NaN"

fun js_sub :: "jsnum \<Rightarrow> jsnum \<Rightarrow> jsnum" where
  "js_sub (Num a) (Num b) = Num (a - b)"
| "js_sub _ _ = NaN"

fun js_mul :: "jsnum \<Rightarrow> jsnum \<Rightarrow> jsnum" where
  "js_mul (Num a) (Num b) = Num (a * b)"
| "js_mul _ _ = NaN"

fun js_div :: "jsnum \<Rightarrow> jsnum \<Rightarrow> jsnum" where
  "js_div (Num a) (Num b) = (if b = 0 then NaN else Num (a / b))"
| "js_div _ _ = NaN"

fun js_min :: "jsnum \<Rightarrow> jsnum \<Rightarrow> jsnum" where
  "js_min (Num a) (Num b) = Num (min a b)"
| "js_min _ _ = NaN"

fun js_max :: "jsnum \<Rightarrow> jsnum \<Rightarrow> jsnum" where
  "js_max (Num a) (Num b) = Num (max a b)"
| "js_max _ _ = NaN"

fun js_sqrt :: "jsnum \<Rightarrow> jsnum" where
  "js_sqrt (Num a) = (if a < 0 then NaN else Num (sqrt a))"
| "js_sqrt NaN = NaN"

text \<open>Comparisons with \<open>NaN\<close> are false.\<close>

fun js_lt :: "jsnum \<Rightarrow> jsnum \<Rightarrow> bool" where
  "js_lt (Num a) (Num b) = (a < b)"
| "js_lt _ _ = False"

fun js_gt :: "jsnum \<Rightarrow> jsnum \<Rightarrow> bool" where
  "js_gt (Num a) (Num b) = (b < a)"
| "js_gt _ _ = False"

text \<open>
  Reading a typed array out of range gives \<open>undefined\<close>, which is \<open>NaN\<close> in arithmetic
  and when stored into a \<open>Float32Array\<close>.
\<close>

definition js_get :: "jsnum list \<Rightarrow> int \<Rightarrow> jsnum" where
  "js_get a i = (if 0 \<le> i \<and> i < int (length a) then a ! nat i else NaN)"

text \<open>
  Storing a number into an \<open>Int16Array\<close> applies ToInt16: \<open>NaN\<close> becomes 0, any other
  number is truncated toward zero and taken modulo \<open>2^16\<close>.
\<close>

definition js_trunc :: "real \<Rightarrow> int" where
  "js_trunc x = (if x < 0 then \<lceil>x\<rceil> else \<lfloor>x\<rfloor>)"

fun ToInt16 :: "jsnum \<Rightarrow> 16 word" where
  "ToInt16 NaN = 0"
| "ToInt16 (Num x) = word_of_int (js_trunc x)"

subsection \<open>Rounding to a binary floating-point format\<close>

text \<open>
  \<open>round_to_precision p x\<close> is \<open>x\<close> rounded to the nearest number with a \<open>p\<close>-bit
  significand, ties to even, as IEEE 754 does in the normal range (no overflow, no
  subnormals: the numbers rounded are PCM quotients between \<open>2^-15\<close> and 1, ratios of
  sample rates, and positions in a buffer).
\<close>

function floor_log2 :: "real \<Rightarrow> int" where
  "floor_log2 x = (if x \<le> 0 then 0 else if 2 \<le> x then floor_log2 (x / 2) + 1
                   else if x < 1 then floor_log2 (x * 2) - 1 else 0)"
  by pat_completeness auto
termination
proof (relation "measure (\<lambda>x. nat \<bar>\<lfloor>log 2 x\<rfloor>\<bar>)", goal_cases)
  case 1
  show ?case by simp
next
  case (2 x)
  then have "\<lfloor>log 2 (x / 2)\<rfloor> = \<lfloor>log 2 x\<rfloor> - 1"
    by (simp add: log_divide)
  moreover from 2 have "1 \<le> \<lfloor>log 2 x\<rfloor>"
    by (simp add: le_floor_iff le_log_iff)
  ultimately have "nat \<bar>\<lfloor>log 2 (x / 2)\<rfloor>\<bar> < nat \<bar>\<lfloor>log 2 x\<rfloor>\<bar>"
    by linarith
  then show ?case by (simp only: in_measure)
next
  case (3 x)
  then have "\<lfloor>log 2 (x * 2)\<rfloor> = \<lfloor>log 2 x\<rfloor> + 1"
    by (simp add: log_mult)
  moreover from 3 have "\<lfloor>log 2 x\<rfloor> \<le> - 1"
    by (simp add: floor_le_iff)
  ultimately have "nat \<bar>\<lfloor>log 2 (x * 2)\<rfloor>\<bar> < nat \<bar>\<lfloor>log 2 x\<rfloor>\<bar>"
    by linarith
  then show ?case by (simp only: in_measure)
qed

declare floor_log2.simps [simp del]

definition round_half_even :: "real \<Rightarrow> int" where
  "round_half_even x =
     (let f = \<lfloor>x\<rfloor>; d = x - of_int f
      in if d < 1 / 2 then f else if 1 / 2 < d then f + 1
         else if even f then f else f + 1)"

definition round_to_precision :: "nat \<Rightarrow> real \<Rightarrow> real" where
  "round_to_precision p x =
     (if x = 0 then 0
      else let e = floor_log2 \<bar>x\<bar> + 1 - int p
           in of_int (round_half_even (x / 2 powi e)) * 2 powi e)"

definition toDouble :: "real \<Rightarrow> real" where
  "toDouble = round_to_precision 53"

definition fround :: "real \<Rightarrow> real" where
  "fround = round_to_precision 24"

section \<open>PCM codec (src/utils/audioUtils.ts)\<close>

text \<open>
  The body of the conversion loop, shared by \<open>convertFloat32ToInt16\<close>,
  \<open>AudioProcessor.flush\<close> and \<open>onaudioprocess\<close>:
  \<^verbatim>\<open>const s = Math.max(-1, Math.min(1, buffer[l]));
  buf[l] = s < 0 ? s * 0x8000 : s * 0x7FFF;\<close>
\<close>

definition sampleToInt16 :: "jsnum \<Rightarrow> 16 word" where
  "sampleToInt16 x =
     (let s = js_max (Num (- 1)) (js_min (Num 1) x)
      in ToInt16 (if js_lt s (Num 0) then js_mul s (Num 32768) else js_mul s (Num 32767)))"

text \<open>\<open>while (l--)\<close> fills \<open>buf\<close> from the last index down to 0.\<close>

fun convert_loop :: "jsnum list \<Rightarrow> nat \<Rightarrow> 16 word list \<Rightarrow> 16 word list" where
  "convert_loop buffer 0 buf = buf"
| "convert_loop buffer (Suc l) buf =
     convert_loop buffer l (buf[l := sampleToInt16 (js_get buffer (int l))])"

definition convertFloat32ToInt16 :: "jsnum list \<Rightarrow> 16 word list" where
  "convertFloat32ToInt16 buffer =
     convert_loop buffer (length buffer) (replicate (length buffer) 0)"

text \<open>
  The decoder \<open>base64ToFloat32\<close>, from the \<open>Int16Array\<close> view of the decoded bytes on
  (lines 66 to 75): the quotient is computed in binary64 and stored into a
  \<open>Float32Array\<close>.
\<close>

definition scaleInt16 :: "int \<Rightarrow> jsnum" where
  "scaleInt16 int16 =
     Num (fround (toDouble (if int16 < 0 then real_of_int int16 / 32768
                            else real_of_int int16 / 32767)))"

definition base64ToFloat32 :: "16 word list \<Rightarrow> jsnum list" where
  "base64ToFloat32 int16Array = map (\<lambda>w. scaleInt16 (sint w)) int16Array"

text \<open>The conversion as the specification words it, with rounding to nearest.\<close>

definition spec_floatToInt16 :: "real \<Rightarrow> int" where
  "spec_floatToInt16 sample =
     (let s = max (- 1) (min 1 sample)
      in if s < 0 then round (s * 32768) else round (s * 32767))"

section \<open>Averaging resampler (src/utils/audioUtils.ts)\<close>

datatype error = Error string | RangeError | NotSupportedError

text \<open>
  The inner \<open>for\<close> loop of \<open>downsampleBuffer\<close>: it adds \<open>buffer[i]\<close> to \<open>accum\<close> and
  counts, for \<open>i\<close> from \<open>offsetBuffer\<close> while \<open>i < nextOffsetBuffer && i < buffer.length\<close>.
\<close>

function accumulate :: "jsnum list \<Rightarrow> int \<Rightarrow> int \<Rightarrow> jsnum \<Rightarrow> nat \<Rightarrow> jsnum \<times> nat" where
  "accumulate buffer nextOffsetBuffer i accum count =
     (if i < nextOffsetBuffer \<and> i < int (length buffer)
      then accumulate buffer nextOffsetBuffer (i + 1) (js_add accum (js_get buffer i)) (count + 1)
      else (accum, count))"
  by pat_completeness auto
termination
  by (relation "measure (\<lambda>(buffer, n, i, accum, count). nat (min n (int (length buffer)) - i))")
    auto

declare accumulate.simps [simp del]

text \<open>
  The outer \<open>while (offsetResult < result.length)\<close> loop. \<open>Math.round\<close> is \<open>round\<close>
  (halves go up); its argument is the binary64 product.
\<close>

function downsample_loop :: "jsnum list \<Rightarrow> real \<Rightarrow> jsnum list \<Rightarrow> nat \<Rightarrow> int \<Rightarrow> jsnum list" where
  "downsample_loop buffer sampleRateRatio result offsetResult offsetBuffer =
     (if offsetResult < length result
      then let nextOffsetBuffer = round (toDouble ((real offsetResult + 1) * sampleRateRatio));
               ac = accumulate buffer nextOffsetBuffer offsetBuffer (Num 0) 0
           in downsample_loop buffer sampleRateRatio
                (result[offsetResult := js_div (fst ac) (Num (real (snd ac)))])
                (offsetResult + 1) nextOffsetBuffer
      else result)"
  by pat_completeness auto
termination
  by (relation "measure (\<lambda>(buffer, r, result, offsetResult, offsetBuffer).
        length result - offsetResult)") auto

declare downsample_loop.simps [simp del]

text \<open>
  \<open>downsampleBuffer\<close>. Sample rates are real numbers; their quotient and the quotient
  \<open>buffer.length / sampleRateRatio\<close> are rounded to binary64. After the two guards of the
  code the target rate is below the source rate; the two branches on a zero rate spell out
  what JavaScript's division gives there (\<open>sampleRate / 0\<close> is \<open>Infinity\<close>, so the new
  length is 0; \<open>0 / outSampleRate\<close> with a negative target is \<open>-0\<close>, so the length is
  \<open>-Infinity\<close>, or \<open>NaN\<close> for an empty buffer). \<open>new Float32Array(n)\<close> raises a
  \<open>RangeError\<close> for negative \<open>n\<close> and is filled with zeros otherwise.
\<close>

definition downsampleBuffer :: "jsnum list \<Rightarrow> real \<Rightarrow> real \<Rightarrow> error + jsnum list" where
  "downsampleBuffer buffer sampleRate outSampleRate =
     (if outSampleRate = sampleRate then Inr buffer
      else if outSampleRate > sampleRate
      then Inl (Error ''downsampling rate show be smaller than original sample rate'')
      else if outSampleRate = 0 then Inr []
      else if sampleRate = 0 then (if buffer = [] then Inr [] else Inl RangeError)
      else let sampleRateRatio = toDouble (sampleRate / outSampleRate);
               newLength = round (toDouble (real (length buffer) / sampleRateRatio))
           in if newLength < 0 then Inl RangeError
              else Inr (downsample_loop buffer sampleRateRatio
                          (replicate (nat newLength) (Num 0)) 0 0))"

definition floatTo16BitPCM :: "jsnum list \<Rightarrow> real \<Rightarrow> real \<Rightarrow> error + 16 word list" where
  "floatTo16BitPCM input sampleRate targetSampleRate =
     (case downsampleBuffer input sampleRate targetSampleRate of
        Inl e \<Rightarrow> Inl e
      | Inr downsampled \<Rightarrow> Inr (convertFloat32ToInt16 downsampled))"

text \<open>
  The sum and the count that iteration \<open>k\<close> of the outer loop computes: the window runs
  from \<open>round (k * ratio)\<close> to \<open>round ((k + 1) * ratio)\<close>, the products in binary64, and
  stops at the end of the buffer.
\<close>

definition window :: "jsnum list \<Rightarrow> real \<Rightarrow> nat \<Rightarrow> jsnum \<times> nat" where
  "window buffer sampleRateRatio k =
     accumulate buffer (round (toDouble ((real k + 1) * sampleRateRatio)))
       (round (toDouble (real k * sampleRateRatio))) (Num 0) 0"

section \<open>Voice activity detection (calculateRMS)\<close>

text \<open>
  \<open>calculateRMS\<close> of useVoiceClient; \<open>AudioProcessor.process\<close> computes the same sum and
  square root inline.
\<close>

fun sum_squares :: "jsnum list \<Rightarrow> jsnum \<Rightarrow> jsnum" where
  "sum_squares [] acc = acc"
| "sum_squares (x # inputBuffer) acc = sum_squares inputBuffer (js_add acc (js_mul x x))"

definition calculateRMS :: "jsnum list \<Rightarrow> jsnum" where
  "calculateRMS inputBuffer =
     js_sqrt (js_div (sum_squares inputBuffer (Num 0)) (Num (real (length inputBuffer))))"

section \<open>The capture worklet (AudioProcessor)\<close>

record AudioProcessor =
  targetSampleRate :: real
  vadThreshold :: real
  chunkSize :: nat
  buffer :: "jsnum list"
  bufferIndex :: nat
  volumeSkipCounter :: nat
  residue :: real

text \<open>The messages posted on the worklet's port, in order.\<close>

datatype message = vad_signal | volume jsnum | audio_data "16 word list"

text \<open>The constructor of src/hooks/audioProcessor.ts (nearest-neighbour resampling).\<close>

definition constructor :: AudioProcessor where
  "constructor =
     \<lparr>targetSampleRate = 16000, vadThreshold = 5 / 1000, chunkSize = 512,
      buffer = replicate 512 (Num 0), bufferIndex = 0, volumeSkipCounter = 0, residue = 0\<rparr>"


definition flush :: "AudioProcessor \<Rightarrow> AudioProcessor \<times> message list" where
  "flush s =
     (s\<lparr>bufferIndex := 0\<rparr>,
      [audio_data (map (\<lambda>i. sampleToInt16 (js_get (buffer s) (int i))) [0..<chunkSize s])])"

text \<open>
  \<^verbatim>\<open>this.buffer[this.bufferIndex++] = v; if (this.bufferIndex >= this.chunkSize) this.flush();\<close>
  A store beyond the end of a typed array is ignored.
\<close>

definition store_sample :: "AudioProcessor \<Rightarrow> jsnum \<Rightarrow> AudioProcessor \<times> message list" where
  "store_sample s v =
     (let s1 = s\<lparr>buffer := (buffer s)[bufferIndex s := v], bufferIndex := bufferIndex s + 1\<rparr>
      in if chunkSize s1 \<le> bufferIndex s1 then flush s1 else (s1, []))"

text \<open>The loop of the fast path (\<open>ratio === 1\<close>): every sample of the frame is stored.\<close>

fun store_samples :: "AudioProcessor \<Rightarrow> jsnum list \<Rightarrow> AudioProcessor \<times> message list" where
  "store_samples s [] = (s, [])"
| "store_samples s (v # vs) =
     (let sm1 = store_sample s v; sm2 = store_samples (fst sm1) vs
      in (fst sm2, snd sm1 @ snd sm2))"

text \<open>Step 1 of \<open>process\<close>: the VAD signal and the throttled volume message.\<close>

definition vad_stage :: "AudioProcessor \<Rightarrow> jsnum list \<Rightarrow> AudioProcessor \<times> message list" where
  "vad_stage s channelData =
     (let rms = calculateRMS channelData;
          m1 = (if js_gt rms (Num (vadThreshold s)) then [vad_signal] else []);
          c = volumeSkipCounter s + 1
      in if 3 \<le> c then (s\<lparr>volumeSkipCounter := 0\<rparr>, m1 @ [volume rms])
         else (s\<lparr>volumeSkipCounter := c\<rparr>, m1))"

text \<open>
  The nearest-neighbour loop \<open>while (this.residue < channelData.length)\<close>, with
  \<open>this.residue += ratio\<close> in binary64. It does not return when the ratio is not
  positive, or too small to move \<open>residue\<close>, hence the option type.
\<close>

partial_function (option) nn_loop ::
  "real \<Rightarrow> jsnum list \<Rightarrow> AudioProcessor \<Rightarrow> message list \<Rightarrow> (AudioProcessor \<times> message list) option"
where
  "nn_loop ratio channelData s out =
     (if residue s < real (length channelData)
      then let i = \<lfloor>residue s\<rfloor>;
               sm = (if i < int (length channelData) then store_sample s (js_get channelData i)
                     else (s, []))
           in nn_loop ratio channelData
                ((fst sm)\<lparr>residue := toDouble (residue (fst sm) + ratio)\<rparr>)
                (out @ snd sm)
      else Some (s, out))"

text \<open>
  \<open>process\<close> of src/hooks/audioProcessor.ts. \<open>input\<close> is \<open>inputs[0]\<close>, the list of
  channels; \<open>sampleRate\<close> is the global of the worklet scope.
\<close>

definition process ::
  "AudioProcessor \<Rightarrow> jsnum list list \<Rightarrow> real \<Rightarrow> (AudioProcessor \<times> message list) option"
where
  "process s input sampleRate =
     (if input = [] then Some (s, [])
      else let channelData = hd input;
               sm1 = vad_stage s channelData;
               ratio = toDouble (sampleRate / targetSampleRate (fst sm1))
           in if ratio = 1
              then let sm2 = store_samples (fst sm1) channelData
                   in Some (fst sm2, snd sm1 @ snd sm2)
              else case nn_loop ratio channelData (fst sm1) [] of
                     None \<Rightarrow> None
                   | Some sm2 \<Rightarrow>
                       Some ((fst sm2)\<lparr>residue :=
                               toDouble (residue (fst sm2) - real (length channelData))\<rparr>,
                             snd sm1 @ snd sm2))"



subsection \<open>The resampler as a function of the frame and the carry\<close>

text \<open>
  The control of both loops, \<^verbatim>\<open>while (this.residue < channelData.length) { \<dots>; this.residue += ratio; }\<close>,
  without the samples: \<open>visits ratio n r ps r'\<close> holds when the loop, entered with
  \<open>residue = r\<close> on a frame of \<open>n\<close> samples, runs its body at the positions \<open>ps\<close> (binary64
  numbers, in this order) and leaves with \<open>residue = r'\<close>. The lemmas \<open>nn_loop_visits\<close>
  and \<open>lerp_loop_visits\<close> prove that the loops store one sample for each of these
  positions.
\<close>

inductive visits :: "real \<Rightarrow> nat \<Rightarrow> real \<Rightarrow> real list \<Rightarrow> real \<Rightarrow> bool" where
  visits_stop: "\<not> r < real n \<Longrightarrow> visits ratio n r [] r"
| visits_step: "r < real n \<Longrightarrow> visits ratio n (toDouble (r + ratio)) ps r' \<Longrightarrow>
     visits ratio n r (r # ps) r'"

code_pred visits .


definition resample_count :: "real \<Rightarrow> real \<Rightarrow> nat \<Rightarrow> nat" where
  "resample_count ratio r n = nat \<lceil>(real n - r) / ratio\<rceil>"


definition lerp_at :: "jsnum list \<Rightarrow> real \<Rightarrow> jsnum" where
  "lerp_at channelData p =
     (let i = \<lfloor>p\<rfloor>;
          decimal = p - real_of_int i;
          s0 = js_get channelData i;
          s1 = (if i + 1 < int (length channelData) then js_get channelData (i + 1) else s0)
      in js_add s0 (js_mul (js_sub s1 s0) (Num decimal)))"

definition lerp_samples :: "real \<Rightarrow> real \<Rightarrow> jsnum list \<Rightarrow> jsnum list" where
  "lerp_samples ratio r channelData =
     map (\<lambda>k. lerp_at channelData (r + real k * ratio))
       [0..<resample_count ratio r (length channelData)]"

text \<open>
  What a call of \<open>process\<close> on the frame \<open>channelData\<close> does when its resampler yields
  the samples \<open>out\<close> and the carry \<open>r\<close>: the VAD stage, then every sample stored.
\<close>

definition feed ::
  "AudioProcessor \<Rightarrow> jsnum list \<Rightarrow> jsnum list \<Rightarrow> real \<Rightarrow> AudioProcessor \<times> message list"
where
  "feed s channelData out r =
     (let sm1 = vad_stage s channelData; sm2 = store_samples (fst sm1) out
      in ((fst sm2)\<lparr>residue := r\<rparr>, snd sm1 @ snd sm2))"

text \<open>
  Successive callbacks of a \<open>process\<close> method, each with one input of channels; the
  messages are collected in order.
\<close>

fun callbacks ::
  "(AudioProcessor \<Rightarrow> jsnum list list \<Rightarrow> real \<Rightarrow> (AudioProcessor \<times> message list) option) \<Rightarrow>
   AudioProcessor \<Rightarrow> jsnum list list list \<Rightarrow> real \<Rightarrow> (AudioProcessor \<times> message list) option"
where
  "callbacks proc s [] sampleRate = Some (s, [])"
| "callbacks proc s (input # rest) sampleRate =
     (case proc s input sampleRate of
        None \<Rightarrow> None
      | Some sm1 \<Rightarrow>
          (case callbacks proc (fst sm1) rest sampleRate of
             None \<Rightarrow> None
           | Some sm2 \<Rightarrow> Some (fst sm2, snd sm1 @ snd sm2)))"

text \<open>
  The resampled stream of a sequence of frames at the binary64 ratio \<open>ratio\<close>, the carry
  threaded through as \<open>process\<close> does: a ratio of 1 keeps every frame as it is, any other
  ratio keeps the sample at the floor of every position visited.
\<close>

inductive resampled :: "real \<Rightarrow> real \<Rightarrow> jsnum list list \<Rightarrow> jsnum list \<Rightarrow> bool" where
  resampled_Nil: "resampled ratio r [] []"
| resampled_fast: "ratio = 1 \<Longrightarrow> resampled ratio r frames rest \<Longrightarrow>
     resampled ratio r (channelData # frames) (channelData @ rest)"
| resampled_Cons: "ratio \<noteq> 1 \<Longrightarrow> visits ratio (length channelData) r ps r' \<Longrightarrow>
     resampled ratio (toDouble (r' - real (length channelData))) frames rest \<Longrightarrow>
     resampled ratio r (channelData # frames)
       (map (\<lambda>p. js_get channelData \<lfloor>p\<rfloor>) ps @ rest)"

code_pred resampled .

text \<open>The chunks posted, and the samples accumulated but not yet flushed.\<close>

fun audio_chunks :: "message list \<Rightarrow> 16 word list list" where
  "audio_chunks [] = []"
| "audio_chunks (audio_data d # ms) = d # audio_chunks ms"
| "audio_chunks (m # ms) = audio_chunks ms"

definition pending :: "AudioProcessor \<Rightarrow> jsnum list" where
  "pending s = take (bufferIndex s) (buffer s)"

text \<open>
  The invariant of the accumulation buffer: it has \<open>chunkSize\<close> elements and is never
  full between two stores.
\<close>

definition buffer_ok :: "AudioProcessor \<Rightarrow> bool" where
  "buffer_ok s \<longleftrightarrow> length (buffer s) = chunkSize s \<and> bufferIndex s < chunkSize s"

section \<open>Playback scheduling (useVoiceClient, VoiceChat)\<close>

text \<open>
  An \<open>AudioBufferSourceNode\<close> as the scheduler uses it: the samples and duration of its
  buffer, the time passed to \<open>start\<close>, and whether \<open>stop\<close> was called.
\<close>

record AudioBufferSourceNode =
  samples :: "jsnum list"
  duration :: real
  startedAt :: "real option"
  stopped :: bool

text \<open>
  The refs of the hook \<open>useVoiceClient\<close> (src/hooks/useVoiceClient.ts). \<open>audioContext\<close>
  tells whether \<open>audioContextRef.current\<close> is set; the clock \<open>ctx.currentTime\<close> is an
  argument of each operation. \<open>nodes\<close> holds every source node created so far, and
  \<open>activeSourceNodes\<close> refers to nodes by their index there. The React state
  \<open>speakingState\<close> belongs to the user interface and is left out.
\<close>

record VoiceClient =
  audioContext :: bool
  nextStartTime :: real
  activeSourceNodes :: "nat list"
  isAIResponding :: bool
  nodes :: "AudioBufferSourceNode list"

definition RECEIVE_SAMPLE_RATE :: real where
  "RECEIVE_SAMPLE_RATE = 22000"

text \<open>
  \<open>playAudio\<close>, given the \<open>Int16Array\<close> view of the decoded message.
  \<open>ctx.createBuffer\<close> raises a \<open>NotSupportedError\<close> for a length of 0, before anything
  is modified.
\<close>

definition playAudio :: "VoiceClient \<Rightarrow> real \<Rightarrow> 16 word list \<Rightarrow> error + VoiceClient" where
  "playAudio s currentTime int16Array =
     (if \<not> audioContext s then Inr s
      else let float32Data = base64ToFloat32 int16Array
           in if float32Data = [] then Inl NotSupportedError
              else let d = real (length float32Data) / RECEIVE_SAMPLE_RATE;
                       source = length (nodes s);
                       start = (if nextStartTime s < currentTime then currentTime
                                else nextStartTime s)
                   in Inr (s\<lparr>activeSourceNodes := activeSourceNodes s @ [source],
                              nextStartTime := start + d,
                              nodes := nodes s @
                                [\<lparr>samples = float32Data, duration = d,
                                  startedAt = Some start, stopped = False\<rparr>]\<rparr>))"

text \<open>\<open>source.onended\<close> of the node \<open>source\<close>.\<close>

definition onended :: "VoiceClient \<Rightarrow> real \<Rightarrow> nat \<Rightarrow> VoiceClient" where
  "onended s currentTime source =
     (let s1 = s\<lparr>activeSourceNodes := filter (\<lambda>x. x \<noteq> source) (activeSourceNodes s)\<rparr>;
          timeRemaining = nextStartTime s1 - currentTime
      in if timeRemaining \<le> 1 / 10 then s1\<lparr>isAIResponding := False\<rparr> else s1)"

text \<open>\<open>stopAudioPlayback\<close>: \<open>source.stop()\<close> on every active node, then the resets.\<close>

fun stop_sources :: "nat list \<Rightarrow> AudioBufferSourceNode list \<Rightarrow> AudioBufferSourceNode list" where
  "stop_sources [] ns = ns"
| "stop_sources (source # rest) ns =
     stop_sources rest (if source < length ns then ns[source := (ns ! source)\<lparr>stopped := True\<rparr>]
                        else ns)"

definition stopAudioPlayback :: "VoiceClient \<Rightarrow> real \<Rightarrow> VoiceClient" where
  "stopAudioPlayback s currentTime =
     (let s1 = s\<lparr>nodes := stop_sources (activeSourceNodes s) (nodes s),
                 activeSourceNodes := []\<rparr>;
          s2 = (if audioContext s1 then s1\<lparr>nextStartTime := currentTime\<rparr> else s1)
      in s2\<lparr>isAIResponding := False\<rparr>)"



section \<open>Properties of the PCM codec\<close>

lemma floor_log2_eq: "0 < x \<Longrightarrow> floor_log2 x = \<lfloor>log 2 x\<rfloor>"
proof (induction x rule: floor_log2.induct)
  case (1 x)
  show ?case
  proof (cases "2 \<le> x")
    case True
    with 1 have "floor_log2 (x / 2) = \<lfloor>log 2 (x / 2)\<rfloor>" by simp
    with True 1(3) show ?thesis
      by (subst floor_log2.simps) (simp add: log_divide)
  next
    case False
    show ?thesis
    proof (cases "x < 1")
      case True
      with 1 False have "floor_log2 (x * 2) = \<lfloor>log 2 (x * 2)\<rfloor>" by simp
      with True False 1(3) show ?thesis
        by (subst floor_log2.simps) (simp add: log_mult)
    next
      case g: False
      with False 1(3) have "\<lfloor>log 2 x\<rfloor> = 0"
        by (simp add: floor_log_eq_powr_iff)
      with g False 1(3) show ?thesis
        by (subst floor_log2.simps) simp
    qed
  qed
qed

lemma js_trunc_bounds:
  "- 1 \<le> s \<Longrightarrow> s \<le> 1 \<Longrightarrow>
   - 32768 \<le> (if s < 0 then js_trunc (s * 32768) else js_trunc (s * 32767)) \<and>
   (if s < 0 then js_trunc (s * 32768) else js_trunc (s * 32767)) \<le> 32767"
  unfolding js_trunc_def
  by (auto simp: le_ceiling_iff ceiling_le_iff le_floor_iff floor_le_iff) 

lemma sint16_of_int: "- 32768 \<le> t \<Longrightarrow> t \<le> 32767 \<Longrightarrow> sint (word_of_int t :: 16 word) = t"
  by (simp add: sint_sbintrunc' signed_take_bit_int_eq_self)

lemma sampleToInt16_Num:
  "sint (sampleToInt16 (Num x)) =
     (let s = max (- 1) (min 1 x)
      in if s < 0 then js_trunc (s * 32768) else js_trunc (s * 32767))"
proof -
  define s where "s = max (- 1) (min 1 x)"
  have b: "- 1 \<le> s" "s \<le> 1" by (simp_all add: s_def)
  have c: "js_max (Num (- 1)) (js_min (Num 1) (Num x)) = Num s"
    by (simp only: s_def js_max.simps js_min.simps)
  have "sampleToInt16 (Num x) =
          word_of_int (if s < 0 then js_trunc (s * 32768) else js_trunc (s * 32767))"
    unfolding sampleToInt16_def c Let_def by simp
  then have "sint (sampleToInt16 (Num x)) =
          (if s < 0 then js_trunc (s * 32768) else js_trunc (s * 32767))"
    using js_trunc_bounds [OF b] by (simp only: sint16_of_int)
  then show ?thesis
    unfolding s_def Let_def .
qed

lemma convert_loop_eq:
  "l \<le> length input \<Longrightarrow> length buf = length input \<Longrightarrow>
   convert_loop input l buf = map sampleToInt16 (take l input) @ drop l buf"
proof (induction l arbitrary: buf)
  case 0
  then show ?case by simp
next
  case (Suc l)
  then have l: "l < length input" by simp
  have "convert_loop input (Suc l) buf =
          map sampleToInt16 (take l input) @ drop l (buf[l := sampleToInt16 (input ! l)])"
    using Suc l by (simp add: js_get_def)
  also have "drop l (buf[l := sampleToInt16 (input ! l)]) = sampleToInt16 (input ! l) # drop (Suc l) buf"
    using l Suc.prems(2) by (simp add: Cons_nth_drop_Suc [symmetric] flip: upd_conv_take_nth_drop)
  finally show ?case using l by (simp add: take_Suc_conv_app_nth)
qed

lemma convertFloat32ToInt16_map: "convertFloat32ToInt16 input = map sampleToInt16 input"
  by (simp add: convertFloat32ToInt16_def convert_loop_eq)

text \<open>
  C2 (as amended). Every sample of \<open>convertFloat32ToInt16\<close> is clamped to \<open>[-1, 1]\<close>,
  scaled by 32768 when the clamped value is negative and by 32767 otherwise, and then
  truncated toward zero by the store into the \<open>Int16Array\<close>; it is not rounded to the
  nearest integer.
\<close>

theorem convertFloat32ToInt16_truncates:
  assumes "i < length input" and "input ! i = Num x"
  shows "sint (convertFloat32ToInt16 input ! i) =
           (let s = max (- 1) (min 1 x)
            in if s < 0 then js_trunc (s * 32768) else js_trunc (s * 32767))"
  using assms by (simp add: convertFloat32ToInt16_map sampleToInt16_Num)

theorem convertFloat32ToInt16_truncates_witness:
  "sint (convertFloat32ToInt16 [Num (1 / 4), Num (- 3)] ! 1) = - 32768 \<and>
   sint (convertFloat32ToInt16 [Num (1 / 4), Num (- 3)] ! 0) = 8191"
  using convertFloat32ToInt16_truncates [of 1 "[Num (1 / 4), Num (- 3)]" "- 3"]
    convertFloat32ToInt16_truncates [of 0 "[Num (1 / 4), Num (- 3)]" "1 / 4"]
  by (simp add: js_trunc_def)

text \<open>
  The sample \<open>1/4\<close> scales to \<open>8191.75\<close>: the code stores 8191, rounding to nearest
  gives 8192.
\<close>

theorem convertFloat32ToInt16_not_rounding:
  "sint (convertFloat32ToInt16 [Num (1 / 4)] ! 0) = 8191 \<and> spec_floatToInt16 (1 / 4) = 8192 \<and>
   sint (convertFloat32ToInt16 [Num (1 / 4)] ! 0) \<noteq> spec_floatToInt16 (1 / 4)"
  by (simp add: convertFloat32ToInt16_map sampleToInt16_Num js_trunc_def spec_floatToInt16_def round_def)

lemma floor_log2_bounds:
  "0 < x \<Longrightarrow> 2 powi floor_log2 x \<le> x \<and> x < 2 powi (floor_log2 x + 1)"
proof (induction x rule: floor_log2.induct)
  case (1 x)
  show ?case
  proof (cases "2 \<le> x")
    case True
    with 1 have ih: "2 powi floor_log2 (x / 2) \<le> x / 2 \<and> x / 2 < 2 powi (floor_log2 (x / 2) + 1)"
      by simp
    have eq: "floor_log2 x = floor_log2 (x / 2) + 1"
      using True 1(3) by (subst floor_log2.simps) simp
    show ?thesis
      using ih unfolding eq by (simp add: power_int_add)
  next
    case False
    show ?thesis
    proof (cases "x < 1")
      case True
      with 1 False have ih: "2 powi floor_log2 (x * 2) \<le> x * 2 \<and> x * 2 < 2 powi (floor_log2 (x * 2) + 1)"
        by simp
      have eq: "floor_log2 (x * 2) = floor_log2 x + 1"
        using True False 1(3) by (subst (2) floor_log2.simps) simp
      show ?thesis
        using ih unfolding eq by (simp add: power_int_add)
    next
      case g: False
      have "floor_log2 x = 0"
        using g False 1(3) by (subst floor_log2.simps) simp
      with g False show ?thesis by simp
    qed
  qed
qed

lemma round_half_even_of_int: "round_half_even (of_int n) = n"
  by (simp add: round_half_even_def)

lemma round_half_even_near: "\<bar>of_int (round_half_even x) - x\<bar> \<le> 1 / 2"
proof -
  define d where "d = x - of_int \<lfloor>x\<rfloor>"
  have d: "0 \<le> d" "d < 1" unfolding d_def by linarith+
  have x: "x = of_int \<lfloor>x\<rfloor> + d" by (simp add: d_def)
  have "\<bar>of_int (round_half_even x) - (of_int \<lfloor>x\<rfloor> + d)\<bar> \<le> 1 / 2"
    unfolding round_half_even_def Let_def d_def [symmetric]
    using d by (simp add: abs_if)
  then show ?thesis using x by simp
qed

lemma round_to_precision_error:
  assumes "x \<noteq> 0"
  shows "\<bar>round_to_precision p x - x\<bar> \<le> \<bar>x\<bar> * 2 powi (- int p)"
proof -
  define e0 where "e0 = floor_log2 \<bar>x\<bar>"
  define P :: real where "P = 2 powi (e0 + 1 - int p)"
  have Ppos: "0 < P" by (simp add: P_def)
  have lo: "2 powi e0 \<le> \<bar>x\<bar>"
    using floor_log2_bounds [of "\<bar>x\<bar>"] assms by (simp add: e0_def)
  have "round_to_precision p x - x = (of_int (round_half_even (x / P)) - x / P) * P"
    using assms Ppos by (simp add: round_to_precision_def e0_def P_def Let_def algebra_simps)
  then have "\<bar>round_to_precision p x - x\<bar> = \<bar>of_int (round_half_even (x / P)) - x / P\<bar> * P"
    using Ppos by (simp add: abs_mult)
  also have "\<dots> \<le> 1 / 2 * P"
    using round_half_even_near [of "x / P"] Ppos by (intro mult_right_mono) simp_all
  also have "1 / 2 * P = 2 powi e0 * 2 powi (- int p)"
  proof -
    have "e0 + 1 - int p = (e0 + - int p) + 1" by simp
    then have "P = 2 powi ((e0 + - int p) + 1)" by (simp only: P_def)
    also have "\<dots> = 2 powi (e0 + - int p) * 2"
      by (subst power_int_add) simp_all
    also have "2 powi (e0 + - int p) = (2::real) powi e0 * 2 powi (- int p)"
      by (subst power_int_add) simp_all
    finally show ?thesis by simp
  qed
  also have "\<dots> \<le> \<bar>x\<bar> * 2 powi (- int p)"
    using lo by (intro mult_right_mono) simp_all
  finally show ?thesis .
qed

lemma round_to_precision_exact:
  assumes "\<bar>m\<bar> < 2 ^ p"
  shows "round_to_precision p (of_int m * 2 powi j) = of_int m * 2 powi j"
proof (cases "m = 0")
  case True
  then show ?thesis by (simp add: round_to_precision_def)
next
  case False
  define x :: real where "x = of_int m * 2 powi j"
  define e0 where "e0 = floor_log2 \<bar>x\<bar>"
  have x0: "x \<noteq> 0" using False by (simp add: x_def)
  have "2 powi e0 \<le> \<bar>x\<bar>"
    using floor_log2_bounds [of "\<bar>x\<bar>"] x0 by (simp add: e0_def)
  also have "\<bar>x\<bar> = of_int \<bar>m\<bar> * 2 powi j"
    by (simp add: x_def abs_mult)
  also have "\<dots> < 2 ^ p * 2 powi j"
  proof (intro mult_strict_right_mono)
    have "real_of_int \<bar>m\<bar> < real_of_int (2 ^ p)" using assms by (simp only: of_int_less_iff)
    then show "real_of_int \<bar>m\<bar> < 2 ^ p" by simp
  qed simp
  also have "\<dots> = 2 powi (int p + j)"
    by (simp add: power_int_add)
  finally have lt: "(2::real) powi e0 < 2 powi (int p + j)" .
  have "e0 < int p + j"
  proof (rule ccontr)
    assume "\<not> e0 < int p + j"
    then have "(2::real) powi (int p + j) \<le> 2 powi e0"
      by (intro power_int_increasing) simp_all
    with lt show False by simp
  qed
  then obtain d :: nat where d: "j - (e0 + 1 - int p) = int d"
    using zero_le_imp_eq_int [of "j - (e0 + 1 - int p)"] by auto
  have "x / 2 powi (e0 + 1 - int p) = of_int m * 2 powi (j - (e0 + 1 - int p))"
    by (simp add: x_def power_int_diff)
  also have "\<dots> = of_int (m * 2 ^ d)"
    unfolding d by simp
  finally have "round_half_even (x / 2 powi (e0 + 1 - int p)) = m * 2 ^ d"
    by (simp only: round_half_even_of_int)
  then have "round_to_precision p x = of_int (m * 2 ^ d) * 2 powi (e0 + 1 - int p)"
    using x0 by (simp add: round_to_precision_def e0_def Let_def)
  also have "\<dots> = of_int m * (2 powi (int d) * 2 powi (e0 + 1 - int p))"
    by simp
  also have "2 powi (int d) * 2 powi (e0 + 1 - int p) = (2::real) powi j"
    unfolding d [symmetric] by (simp add: power_int_add [symmetric])
  finally show ?thesis by (simp add: x_def)
qed

lemma sint16_range: "- 32768 \<le> sint (w :: 16 word) \<and> sint w \<le> 32767"
  using sint_ge [of w] sint_lt [of w] by simp

lemma scaleInt16_negative:
  assumes "k < 0" and "- 32768 \<le> k"
  shows "scaleInt16 k = Num (real_of_int k / 32768)"
proof -
  have eq: "real_of_int k / 32768 = of_int k * 2 powi (- 15)"
    by simp
  have a: "\<bar>k\<bar> < 2 ^ 53" "\<bar>k\<bar> < 2 ^ 24" using assms by simp_all
  have "toDouble (real_of_int k / 32768) = real_of_int k / 32768"
    unfolding eq toDouble_def by (rule round_to_precision_exact [OF a(1)])
  moreover have "fround (real_of_int k / 32768) = real_of_int k / 32768"
    unfolding eq fround_def by (rule round_to_precision_exact [OF a(2)])
  ultimately have "fround (toDouble (real_of_int k / 32768)) = real_of_int k / 32768"
    by (simp only:)
  then show ?thesis using assms(1) by (simp only: scaleInt16_def if_True)
qed

lemma roundtrip_negative:
  assumes "k < 0" and "- 32768 \<le> k"
  shows "sampleToInt16 (scaleInt16 k) = word_of_int k"
proof -
  define x where "x = real_of_int k / 32768"
  have x: "- 1 \<le> x" "x < 0" using assms by (simp_all add: x_def)
  then have c: "js_max (Num (- 1)) (js_min (Num 1) (Num x)) = Num x"
    by (simp add: max_def min_def)
  have "x * 32768 = real_of_int k" by (simp add: x_def)
  then have "js_trunc (x * 32768) = k"
    using assms by (simp add: js_trunc_def)
  then have "sampleToInt16 (Num x) = word_of_int k"
    unfolding sampleToInt16_def c Let_def using x by simp
  then show ?thesis
    by (simp add: scaleInt16_negative [OF assms] x_def)
qed

lemma scaleInt16_positive:
  assumes "0 < k"
  obtains f where "scaleInt16 k = Num f"
    and "\<bar>f - real_of_int k / 32767\<bar> \<le> real_of_int k / 32767 * (1 / 4194304)"
proof -
  define q where "q = real_of_int k / 32767"
  define d where "d = toDouble q"
  define f where "f = fround d"
  have q: "0 < q" using assms by (simp add: q_def)
  have p53: "(2::real) powi (- int 53) \<le> 1 / 8388608" by simp
  have p24: "(2::real) powi (- int 24) = 1 / 16777216" by simp
  have "\<bar>d - q\<bar> \<le> \<bar>q\<bar> * 2 powi (- int 53)"
    unfolding d_def toDouble_def using q by (intro round_to_precision_error) simp
  also have "\<dots> \<le> q * (1 / 8388608)"
    using q p53 by (simp only: abs_of_pos mult_left_mono less_imp_le)
  finally have dq: "\<bar>d - q\<bar> \<le> q * (1 / 8388608)" .
  with q have dpos: "0 < d" by linarith
  have "\<bar>f - d\<bar> \<le> \<bar>d\<bar> * 2 powi (- int 24)"
    unfolding f_def fround_def using dpos by (intro round_to_precision_error) simp
  then have fd: "\<bar>f - d\<bar> \<le> d * (1 / 16777216)"
    using dpos unfolding p24 by simp
  have "\<bar>f - q\<bar> \<le> q * (1 / 4194304)"
    using fd dq q by linarith
  moreover have "scaleInt16 k = Num f"
    using assms by (simp add: scaleInt16_def f_def d_def q_def)
  ultimately show thesis using that by (simp add: q_def)
qed

lemma roundtrip_positive:
  assumes "0 < k" and "k \<le> 32767"
  shows "sint (sampleToInt16 (scaleInt16 k)) = k \<or> sint (sampleToInt16 (scaleInt16 k)) = k - 1"
proof -
  obtain f where f: "scaleInt16 k = Num f"
    and e: "\<bar>f - real_of_int k / 32767\<bar> \<le> real_of_int k / 32767 * (1 / 4194304)"
    using scaleInt16_positive [OF assms(1)] by blast
  define r where "r = real_of_int k"
  have kr: "0 < r" "r \<le> 32767" using assms by (simp_all add: r_def)
  have e': "f - r / 32767 \<le> r / 32767 * (1 / 4194304)" "r / 32767 - f \<le> r / 32767 * (1 / 4194304)"
    using e unfolding r_def by linarith+
  define s where "s = max (- 1) (min 1 f)"
  have fpos: "0 < f" using e' kr by linarith
  have s0: "\<not> s < 0" using fpos by (simp add: s_def)
  have near: "r - 1 < s * 32767 \<and> s * 32767 < r + 1"
  proof (cases "f \<le> 1")
    case True
    then have "s = f" using fpos by (simp add: s_def)
    then show ?thesis using e' kr by linarith
  next
    case False
    then have s1: "s = 1" by (simp add: s_def)
    have "k = 32767"
    proof (rule ccontr)
      assume "k \<noteq> 32767"
      then have "k \<le> 32766" using assms by simp
      then have "r \<le> 32766" by (simp add: r_def)
      with e' False show False by linarith
    qed
    then show ?thesis using s1 by (simp add: r_def)
  qed
  then have fl: "\<lfloor>s * 32767\<rfloor> = k \<or> \<lfloor>s * 32767\<rfloor> = k - 1"
    unfolding r_def by linarith
  have "sint (sampleToInt16 (Num f)) = js_trunc (s * 32767)"
    using s0 by (simp only: sampleToInt16_Num s_def [symmetric] Let_def if_False)
  also have "js_trunc (s * 32767) = \<lfloor>s * 32767\<rfloor>"
    using s0 by (simp add: js_trunc_def mult_less_0_iff)
  finally show ?thesis
    using fl by (simp add: f)
qed

lemma roundtrip_sample:
  fixes w :: "16 word"
  shows "sampleToInt16 (scaleInt16 (sint w)) = w \<or>
   (0 < sint w \<and> sint (sampleToInt16 (scaleInt16 (sint w))) = sint w - 1)"
proof -
  note r = sint16_range [of w]
  consider "sint w < 0" | "sint w = 0" | "0 < sint w" by linarith
  then show ?thesis
  proof cases
    case 1
    then have "sampleToInt16 (scaleInt16 (sint w)) = word_of_int (sint w)"
      using r by (intro roundtrip_negative) simp_all
    then show ?thesis by simp
  next
    case 2
    have "scaleInt16 0 = Num 0"
      by (simp add: scaleInt16_def toDouble_def fround_def round_to_precision_def)
    then have "sampleToInt16 (scaleInt16 0) = 0"
      by (simp add: sampleToInt16_def js_trunc_def)
    moreover have "word_of_int (sint w) = w" by simp
    with 2 have "w = 0" by simp
    ultimately show ?thesis using 2 by simp
  next
    case 3
    from roundtrip_positive [of "sint w"] 3 r
    have "sint (sampleToInt16 (scaleInt16 (sint w))) = sint w \<or>
          sint (sampleToInt16 (scaleInt16 (sint w))) = sint w - 1"
      by simp
    then show ?thesis
    proof
      assume "sint (sampleToInt16 (scaleInt16 (sint w))) = sint w"
      then have "sampleToInt16 (scaleInt16 (sint w)) = w"
        by (rule signed_word_eqI)
      then show ?thesis by simp
    next
      assume "sint (sampleToInt16 (scaleInt16 (sint w))) = sint w - 1"
      with 3 show ?thesis by simp
    qed
  qed
qed

text \<open>
  C1 (as amended). Decoding a 16-bit sample with \<open>base64ToFloat32\<close> and encoding it
  again with \<open>convertFloat32ToInt16\<close> gives the sample back when it is negative or
  zero; a positive sample comes back as itself or as one less, since the quotient by
  32767 is rounded to binary32 and the product is truncated.
\<close>

theorem codec_roundtrip_within_one:
  "list_all2 (\<lambda>x y. y = x \<or> (0 < sint x \<and> sint y = sint x - 1))
     int16Array (convertFloat32ToInt16 (base64ToFloat32 int16Array))"
  unfolding convertFloat32ToInt16_map base64ToFloat32_def
  by (simp add: list_all2_map2 list.rel_refl roundtrip_sample)

lemma scaleInt16_1: "scaleInt16 1 = Num (32769 / 1073741824)"
  by (simp add: scaleInt16_def toDouble_def fround_def round_to_precision_def
      floor_log2.simps round_half_even_def Let_def)

text \<open>The sample 1 decodes to \<open>2^-15 + 2^-30\<close> and encodes to 0.\<close>

theorem codec_roundtrip_counterexample:
  "convertFloat32ToInt16 (base64ToFloat32 [1]) = [0] \<and>
   convertFloat32ToInt16 (base64ToFloat32 [1]) \<noteq> [1]"
  by (simp add: convertFloat32ToInt16_map base64ToFloat32_def scaleInt16_1 sampleToInt16_def js_trunc_def)

lemma scaleInt16_m1: "scaleInt16 (- 1) = Num (- 1 / 32768)"
  using scaleInt16_negative [of "- 1"] by simp

theorem codec_roundtrip_within_one_witness:
  "convertFloat32ToInt16 (base64ToFloat32 [- 1, 0]) = [- 1, 0]"
  using codec_roundtrip_within_one [of "[- 1, 0]"]
  by (simp add: list_all2_Cons1)


section \<open>Properties of binary64 rounding\<close>

lemma toDouble_0 [simp]: "toDouble 0 = 0"
  by (simp add: toDouble_def round_to_precision_def)

lemma toDouble_error: "\<bar>toDouble x - x\<bar> \<le> \<bar>x\<bar> / 9007199254740992"
proof (cases "x = 0")
  case True
  then show ?thesis by simp
next
  case False
  have "(2::real) powi (- int 53) = 1 / 9007199254740992"
    by (simp add: power_int_minus inverse_eq_divide)
  with round_to_precision_error [OF False, of 53] show ?thesis
    by (simp add: toDouble_def)
qed

lemma toDouble_bounds:
  assumes "0 \<le> x"
  shows "x - x / 9007199254740992 \<le> toDouble x"
    and "toDouble x \<le> x + x / 9007199254740992"
  using toDouble_error [of x] assms by linarith+

lemma toDouble_nonneg: "0 \<le> x \<Longrightarrow> 0 \<le> toDouble x"
  using toDouble_error [of x] by linarith

lemma toDouble_pos: "0 < x \<Longrightarrow> 0 < toDouble x"
  using toDouble_error [of x] by linarith

lemma toDouble_exact:
  assumes "x * 2 ^ j = real_of_int m" and "\<bar>m\<bar> < 2 ^ 53"
  shows "toDouble x = x"
proof -
  have "x = real_of_int m * 2 powi (- int j)"
    using assms(1) by (simp add: power_int_minus field_simps)
  moreover have "toDouble (real_of_int m * 2 powi (- int j)) = real_of_int m * 2 powi (- int j)"
    unfolding toDouble_def using assms(2) by (rule round_to_precision_exact)
  ultimately show ?thesis by simp
qed

lemma toDouble_of_nat: "n < 2 ^ 53 \<Longrightarrow> toDouble (real n) = real n"
  using toDouble_exact [of "real n" 0 "int n"] by simp

section \<open>Properties of the averaging resampler\<close>

lemma accumulate_step:
  "i < n \<Longrightarrow> i < int (length b) \<Longrightarrow>
   accumulate b n i a c = accumulate b n (i + 1) (js_add a (js_get b i)) (c + 1)"
  by (subst accumulate.simps) simp

lemma accumulate_stop:
  "\<not> (i < n \<and> i < int (length b)) \<Longrightarrow> accumulate b n i a c = (a, c)"
  by (subst accumulate.simps) auto

lemma accumulate_Num:
  assumes "0 \<le> i"
  shows "accumulate (map Num xs) n i (Num a) c =
           (Num (a + sum_list (take (nat (min n (int (length xs)) - i)) (drop (nat i) xs))),
            c + nat (min n (int (length xs)) - i))"
  using assms
proof (induction "nat (min n (int (length xs)) - i)" arbitrary: i a c)
  case 0
  then have "\<not> (i < n \<and> i < int (length (map Num xs)))" by auto
  then have "accumulate (map Num xs) n i (Num a) c = (Num a, c)"
    by (rule accumulate_stop)
  with 0 show ?case by simp
next
  case (Suc m)
  then have lt: "i < n" "i < int (length xs)" by linarith+
  have m: "m = nat (min n (int (length xs)) - (i + 1))" using Suc(2) by linarith
  have get: "js_get (map Num xs) i = Num (xs ! nat i)"
    using lt Suc.prems by (simp add: js_get_def)
  have "accumulate (map Num xs) n i (Num a) c =
          accumulate (map Num xs) n (i + 1) (Num (a + xs ! nat i)) (c + 1)"
    using lt by (simp add: accumulate_step get)
  also have "\<dots> = (Num (a + xs ! nat i +
        sum_list (take (nat (min n (int (length xs)) - (i + 1))) (drop (nat (i + 1)) xs))),
        c + 1 + nat (min n (int (length xs)) - (i + 1)))"
    using Suc.prems by (intro Suc(1) [OF m]) simp
  also have "nat (i + 1) = Suc (nat i)" using Suc.prems by simp
  also have "take (nat (min n (int (length xs)) - i)) (drop (nat i) xs) =
      xs ! nat i # take (nat (min n (int (length xs)) - (i + 1))) (drop (Suc (nat i)) xs)"
  proof -
    have "nat i < length xs" using lt Suc.prems by simp
    then have "drop (nat i) xs = xs ! nat i # drop (Suc (nat i)) xs"
      by (simp add: Cons_nth_drop_Suc)
    moreover have "nat (min n (int (length xs)) - i) = Suc (nat (min n (int (length xs)) - (i + 1)))"
      using Suc(2) m by simp
    ultimately show ?thesis by simp
  qed
  then have "sum_list (take (nat (min n (int (length xs)) - i)) (drop (nat i) xs)) =
      xs ! nat i + sum_list (take (nat (min n (int (length xs)) - (i + 1))) (drop (Suc (nat i)) xs))"
    by simp
  ultimately show ?case using Suc(2) m by simp
qed

lemma downsample_loop_stop:
  "\<not> offsetResult < length result \<Longrightarrow>
   downsample_loop b ratio result offsetResult offsetBuffer = result"
  by (subst downsample_loop.simps) simp

lemma downsample_loop_step:
  "offsetResult < length result \<Longrightarrow>
   downsample_loop b ratio result offsetResult offsetBuffer =
     downsample_loop b ratio
       (result[offsetResult :=
          js_div (fst (accumulate b (round (toDouble ((real offsetResult + 1) * ratio)))
                         offsetBuffer (Num 0) 0))
            (Num (real (snd (accumulate b (round (toDouble ((real offsetResult + 1) * ratio)))
                               offsetBuffer (Num 0) 0))))])
       (offsetResult + 1) (round (toDouble ((real offsetResult + 1) * ratio)))"
  by (subst downsample_loop.simps) (simp add: Let_def)

lemma downsample_loop_spec:
  assumes "offsetBuffer = round (toDouble (real offsetResult * ratio))"
  shows "length (downsample_loop b ratio result offsetResult offsetBuffer) = length result \<and>
    (\<forall>k < length result.
       downsample_loop b ratio result offsetResult offsetBuffer ! k =
         (if k < offsetResult then result ! k
          else js_div (fst (window b ratio k)) (Num (real (snd (window b ratio k))))))"
  using assms
proof (induction "length result - offsetResult" arbitrary: result offsetResult offsetBuffer)
  case 0
  then have "\<not> offsetResult < length result" by simp
  then show ?case by (simp add: downsample_loop_stop)
next
  case (Suc m)
  then have lt: "offsetResult < length result" by simp
  define v where "v = js_div (fst (window b ratio offsetResult))
      (Num (real (snd (window b ratio offsetResult))))"
  define result' where "result' = result[offsetResult := v]"
  have step: "downsample_loop b ratio result offsetResult offsetBuffer =
      downsample_loop b ratio result' (offsetResult + 1)
        (round (toDouble ((real offsetResult + 1) * ratio)))"
    unfolding result'_def v_def window_def Suc.prems
    by (rule downsample_loop_step [OF lt])
  have m: "m = length result' - (offsetResult + 1)"
    using Suc(2) by (simp add: result'_def)
  have ob: "round (toDouble ((real offsetResult + 1) * ratio)) =
      round (toDouble (real (offsetResult + 1) * ratio))"
    by (simp add: add.commute)
  note ih = Suc(1) [OF m ob]
  show ?case
    unfolding step using ih lt
    by (auto simp: result'_def v_def nth_list_update less_Suc_eq)
qed

lemma downsampleBuffer_spec:
  assumes "outSampleRate < sampleRate" and "outSampleRate \<noteq> 0" and "sampleRate \<noteq> 0"
    and "0 \<le> round (toDouble (real (length b) / toDouble (sampleRate / outSampleRate)))"
  shows "\<exists>result. downsampleBuffer b sampleRate outSampleRate = Inr result \<and>
    int (length result) =
      round (toDouble (real (length b) / toDouble (sampleRate / outSampleRate))) \<and>
    (\<forall>k < length result. result ! k =
       js_div (fst (window b (toDouble (sampleRate / outSampleRate)) k))
         (Num (real (snd (window b (toDouble (sampleRate / outSampleRate)) k)))))"
proof -
  define ratio where "ratio = toDouble (sampleRate / outSampleRate)"
  define newLength where "newLength = round (toDouble (real (length b) / ratio))"
  define result where "result =
    downsample_loop b ratio (replicate (nat newLength) (Num 0)) 0 0"
  have nl: "0 \<le> newLength" using assms(4) by (simp add: newLength_def ratio_def)
  have eq: "downsampleBuffer b sampleRate outSampleRate = Inr result"
    using assms(1,2,3) nl
    by (simp add: downsampleBuffer_def Let_def result_def newLength_def ratio_def)
  have spec: "length result = nat newLength \<and>
    (\<forall>k < nat newLength. result ! k =
        js_div (fst (window b ratio k)) (Num (real (snd (window b ratio k)))))"
    using downsample_loop_spec [of 0 0 ratio b "replicate (nat newLength) (Num 0)"]
    by (simp add: result_def)
  have len: "int (length result) = newLength"
    using spec nl by simp
  show ?thesis
    using eq len spec unfolding ratio_def newLength_def by auto
qed

lemma round_shift: "x + 1 \<le> y \<Longrightarrow> round x + 1 \<le> round (y::real)"
proof -
  assume "x + 1 \<le> y"
  then have "round (x + 1) \<le> round y" by (rule round_mono)
  moreover have "round (x + 1) = round x + 1"
    unfolding round_def by linarith
  ultimately show ?thesis by simp
qed

lemma window_count:
  assumes ratio: "0 < ratio"
    and size: "real (length xs) \<le> 2 ^ 50 * (ratio - 1)"
    and k: "int k < round (toDouble (real (length xs) / ratio))"
  shows "window (map Num xs) ratio k =
           (Num (sum_list (take (snd (window (map Num xs) ratio k))
                   (drop (nat (round (toDouble (real k * ratio)))) xs))),
            snd (window (map Num xs) ratio k))"
    and "1 \<le> snd (window (map Num xs) ratio k)"
    and "nat (round (toDouble (real k * ratio))) + snd (window (map Num xs) ratio k) \<le> length xs"
proof -
  define n where "n = real (length xs)"
  define q where "q = n / ratio"
  define a where "a = real k * ratio"
  define b where "b = a + ratio"
  define lo where "lo = round (toDouble a)"
  define hi where "hi = round (toDouble b)"
  have n0: "0 \<le> n" by (simp add: n_def)
  have size': "n + 1125899906842624 \<le> 1125899906842624 * ratio"
    using size by (simp add: n_def algebra_simps)
  have q0: "0 \<le> q" using n0 ratio by (simp add: q_def)
  have qr: "q * ratio = n" using ratio by (simp add: q_def)
  have a0: "0 \<le> a" using ratio by (simp add: a_def)
  have b0: "0 \<le> b" using a0 ratio by (simp add: b_def)
  note eq = toDouble_bounds [OF q0]
  note ea = toDouble_bounds [OF a0]
  note eb = toDouble_bounds [OF b0]
  have "int k + 1 \<le> round (toDouble q)"
    using k by (simp add: q_def n_def)
  then have "real_of_int (int k + 1) \<le> real_of_int (round (toDouble q))"
    by (simp only: of_int_le_iff)
  then have "real k + 1 \<le> real_of_int (round (toDouble q))"
    by simp
  also have "\<dots> \<le> toDouble q + 1 / 2"
    using of_int_round_le [of "toDouble q"] by simp
  finally have kq: "real k + 1 / 2 \<le> q + q / 9007199254740992"
    using eq(2) by linarith
  have "(real k + 1 / 2) * ratio \<le> (q + q / 9007199254740992) * ratio"
    using kq ratio by (intro mult_right_mono) simp_all
  also have "(q + q / 9007199254740992) * ratio = n + n / 9007199254740992"
    unfolding qr [symmetric] by (simp add: algebra_simps)
  also have "(real k + 1 / 2) * ratio = a + ratio / 2"
    by (simp add: a_def algebra_simps)
  finally have an: "a + ratio / 2 \<le> n + n / 9007199254740992" .
  have lo0: "0 \<le> lo"
  proof -
    have "0 \<le> toDouble a" using a0 by (rule toDouble_nonneg)
    then have "round (0::real) \<le> round (toDouble a)" by (rule round_mono)
    then show ?thesis by (simp add: lo_def)
  qed
  have "toDouble a + 1 \<le> toDouble b"
    using ea(2) eb(1) b_def an size' a0 n0 by linarith
  then have hi: "lo + 1 \<le> hi"
    unfolding lo_def hi_def by (rule round_shift)
  have "toDouble a + 1 / 2 < n"
    using ea(2) an size' a0 n0 ratio by linarith
  then have lon: "lo < int (length xs)"
    unfolding lo_def round_def n_def by (simp add: floor_less_iff)
  have hi_eq: "round (toDouble ((real k + 1) * ratio)) = hi"
    by (simp add: hi_def b_def a_def algebra_simps)
  have w: "window (map Num xs) ratio k =
      (Num (sum_list (take (nat (min hi (int (length xs)) - lo)) (drop (nat lo) xs))),
       nat (min hi (int (length xs)) - lo))"
    unfolding window_def hi_eq a_def [symmetric] lo_def [symmetric]
    using accumulate_Num [OF lo0, of xs hi 0 0] by simp
  from hi lon lo0 have c: "1 \<le> nat (min hi (int (length xs)) - lo)"
    and d: "nat lo + nat (min hi (int (length xs)) - lo) \<le> length xs"
    by linarith+
  show "window (map Num xs) ratio k =
           (Num (sum_list (take (snd (window (map Num xs) ratio k))
                   (drop (nat (round (toDouble (real k * ratio)))) xs))),
            snd (window (map Num xs) ratio k))"
    using w by (simp add: lo_def a_def)
  show "1 \<le> snd (window (map Num xs) ratio k)" using w c by simp
  show "nat (round (toDouble (real k * ratio))) + snd (window (map Num xs) ratio k) \<le> length xs"
    using w d by (simp add: lo_def a_def)
qed

lemma newLength_near:
  assumes rates: "0 < outSampleRate" "outSampleRate < sampleRate"
    and size: "real n \<le> 2 ^ 50 * (toDouble (sampleRate / outSampleRate) - 1)"
  shows "0 \<le> round (toDouble (real n / toDouble (sampleRate / outSampleRate)))"
    and "\<bar>round (toDouble (real n / toDouble (sampleRate / outSampleRate))) -
          round (real n * outSampleRate / sampleRate)\<bar> \<le> 1"
proof -
  define q0 where "q0 = sampleRate / outSampleRate"
  define ratio where "ratio = toDouble q0"
  define q where "q = real n / ratio"
  define x where "x = real n / q0"
  have q0: "1 < q0" using rates by (simp add: q0_def)
  have ratio: "0 < ratio" unfolding ratio_def using q0 by (intro toDouble_pos) simp
  have size': "real n + 1125899906842624 \<le> 1125899906842624 * ratio"
    using size by (simp add: ratio_def q0_def algebra_simps)
  have qpos: "0 \<le> q" using ratio by (simp add: q_def)
  have qr: "q * ratio = real n" using ratio by (simp add: q_def)
  have "q * ratio < 1125899906842624 * ratio"
    unfolding qr using size' ratio by linarith
  then have qlt: "q < 1125899906842624"
    using ratio by simp
  have er: "\<bar>q0 - ratio\<bar> \<le> q0 / 9007199254740992"
    using toDouble_error [of q0] q0 unfolding ratio_def by linarith
  have "q - x = q * ((q0 - ratio) / q0)"
    using q0 ratio by (simp add: q_def x_def field_simps)
  then have "\<bar>q - x\<bar> = q * (\<bar>q0 - ratio\<bar> / q0)"
    using qpos q0 by (simp add: abs_mult)
  also have "\<dots> \<le> q * (1 / 9007199254740992)"
  proof (intro mult_left_mono qpos)
    have "\<bar>q0 - ratio\<bar> \<le> 1 / 9007199254740992 * q0" using er by linarith
    then show "\<bar>q0 - ratio\<bar> / q0 \<le> 1 / 9007199254740992"
      using q0 by (simp only: pos_divide_le_eq)
  qed
  finally have qx: "\<bar>q - x\<bar> \<le> q / 9007199254740992" by linarith
  have ey: "\<bar>toDouble q - q\<bar> \<le> q / 9007199254740992"
    using toDouble_error [of q] qpos by linarith
  have "0 \<le> toDouble q" using qpos by (rule toDouble_nonneg)
  then have "round (0::real) \<le> round (toDouble q)" by (rule round_mono)
  then show "0 \<le> round (toDouble (real n / toDouble (sampleRate / outSampleRate)))"
    by (simp add: q_def ratio_def q0_def)
  have "toDouble q \<le> x + 1" "x \<le> toDouble q + 1"
    using qx ey qlt qpos by linarith+
  then have "round (toDouble q) \<le> round (x + 1)" "round x \<le> round (toDouble q + 1)"
    by (simp_all only: round_mono)
  moreover have "round (x + 1) = round x + 1" "round (toDouble q + 1) = round (toDouble q) + 1"
    unfolding round_def by linarith+
  ultimately have "\<bar>round (toDouble q) - round x\<bar> \<le> 1" by linarith
  moreover have "x = real n * outSampleRate / sampleRate"
    by (simp add: x_def q0_def)
  ultimately show "\<bar>round (toDouble (real n / toDouble (sampleRate / outSampleRate))) -
          round (real n * outSampleRate / sampleRate)\<bar> \<le> 1"
    by (simp add: q_def ratio_def q0_def)
qed

text \<open>
  C10 (as amended). For a target rate below the source rate (both positive) and a buffer
  of at most \<open>2^50 * (ratio - 1)\<close> samples, \<open>ratio\<close> being the binary64 quotient of the
  rates, \<open>downsampleBuffer\<close> returns \<open>round (length / ratio)\<close> samples, the quotient in
  binary64: this is \<open>round (length * outSampleRate / sampleRate)\<close> or differs from it by
  one. Every iteration of the outer loop counts at least one input sample
  (\<open>count \<ge> 1\<close>), so \<open>accum / count\<close> never divides by zero, and the output sample is the
  average of the \<open>count\<close> input samples of its window.
\<close>

theorem downsampleBuffer_windows_nonempty:
  assumes "0 < outSampleRate" and "outSampleRate < sampleRate"
    and "real (length xs) \<le> 2 ^ 50 * (toDouble (sampleRate / outSampleRate) - 1)"
  shows "\<exists>result.
     downsampleBuffer (map Num xs) sampleRate outSampleRate = Inr result \<and>
     int (length result) =
       round (toDouble (real (length xs) / toDouble (sampleRate / outSampleRate))) \<and>
     \<bar>int (length result) - round (real (length xs) * outSampleRate / sampleRate)\<bar> \<le> 1 \<and>
     (\<forall>k < length result.
        let ratio = toDouble (sampleRate / outSampleRate);
            ac = window (map Num xs) ratio k;
            w = take (snd ac) (drop (nat (round (toDouble (real k * ratio)))) xs)
        in 1 \<le> snd ac \<and> length w = snd ac \<and> fst ac = Num (sum_list w) \<and>
           result ! k = Num (sum_list w / real (length w)))"
proof -
  define ratio where "ratio = toDouble (sampleRate / outSampleRate)"
  define newLength where "newLength = round (toDouble (real (length xs) / ratio))"
  have ratio: "0 < ratio"
    unfolding ratio_def using assms(1,2) by (intro toDouble_pos) simp
  have size: "real (length xs) \<le> 2 ^ 50 * (ratio - 1)"
    using assms(3) by (simp add: ratio_def)
  note near = newLength_near [OF assms(1,2), of "length xs", OF assms(3),
      folded ratio_def newLength_def]
  obtain result where eq: "downsampleBuffer (map Num xs) sampleRate outSampleRate = Inr result"
    and len: "int (length result) = newLength"
    and elt: "\<forall>k < length result. result ! k =
       js_div (fst (window (map Num xs) ratio k)) (Num (real (snd (window (map Num xs) ratio k))))"
    using downsampleBuffer_spec [of outSampleRate sampleRate "map Num xs"] assms(1,2) near(1)
    unfolding ratio_def newLength_def by auto
  have win: "let ac = window (map Num xs) ratio k;
            w = take (snd ac) (drop (nat (round (toDouble (real k * ratio)))) xs)
        in 1 \<le> snd ac \<and> length w = snd ac \<and> fst ac = Num (sum_list w) \<and>
           result ! k = Num (sum_list w / real (length w))" if "k < length result" for k
  proof -
    from that len have k: "int k < round (toDouble (real (length xs) / ratio))"
      by (simp add: newLength_def)
    note wc = window_count [OF ratio size k]
    define ac where "ac = window (map Num xs) ratio k"
    define w where "w = take (snd ac) (drop (nat (round (toDouble (real k * ratio)))) xs)"
    have c: "1 \<le> snd ac" using wc(2) by (simp add: ac_def)
    have lw: "length w = snd ac" using wc(3) by (simp add: w_def ac_def)
    have f: "fst ac = Num (sum_list w)"
      using wc(1) by (simp add: ac_def w_def) (metis fst_conv)
    have "result ! k = js_div (fst ac) (Num (real (snd ac)))"
      using that elt by (simp add: ac_def)
    then have "result ! k = Num (sum_list w / real (length w))"
      using c by (simp add: f lw)
    with c lw f show ?thesis
      unfolding Let_def ac_def [symmetric] w_def [symmetric] by simp
  qed
  show ?thesis
    using eq len near(2) win unfolding Let_def ratio_def newLength_def by auto
qed

theorem downsampleBuffer_windows_nonempty_witness:
  "downsampleBuffer (map Num [1, 2, 3, 4]) 2 1 = Inr [Num (3 / 2), Num (7 / 2)]"
proof -
  have t: "toDouble (2 / 1) = 2" "toDouble 2 = 2" "toDouble 4 = 4" "toDouble 0 = 0"
    using toDouble_of_nat [of 2] toDouble_of_nat [of 4] by simp_all
  have h: "(0::real) < 1" "(1::real) < 2"
    "real (length [1, 2, 3, 4 :: real]) \<le> 2 ^ 50 * (toDouble (2 / 1) - 1)"
    unfolding t by simp_all
  obtain result where r: "downsampleBuffer (map Num [1, 2, 3, 4]) 2 1 = Inr result"
    and l: "int (length result) =
       round (toDouble (real (length [1, 2, 3, 4 :: real]) / toDouble (2 / 1)))"
    and w: "\<forall>k < length result.
        let ratio = toDouble (2 / 1);
            ac = window (map Num [1, 2, 3, 4]) ratio k;
            w = take (snd ac) (drop (nat (round (toDouble (real k * ratio)))) [1, 2, 3, 4])
        in 1 \<le> snd ac \<and> length w = snd ac \<and> fst ac = Num (sum_list w) \<and>
           result ! k = Num (sum_list w / real (length w))"
    using downsampleBuffer_windows_nonempty [OF h] by blast
  have len: "length result = 2" using l unfolding t by (simp add: t round_def)
  have w0: "window [Num 1, Num 2, Num 3, Num 4] 2 0 = (Num 3, 2)"
    by (simp add: window_def t round_def accumulate.simps js_get_def)
  have w1: "window [Num 1, Num 2, Num 3, Num 4] 2 (Suc 0) = (Num 7, 2)"
    by (simp add: window_def t round_def accumulate.simps js_get_def)
  from len obtain a b where ab: "result = [a, b]"
    by (auto simp: length_Suc_conv numeral_2_eq_2)
  from w [rule_format, of 0] len have "result ! 0 = Num (3 / 2)"
    unfolding t by (simp add: Let_def w0 t)
  moreover from w [rule_format, of 1] len have "result ! 1 = Num (7 / 2)"
    unfolding t by (simp add: Let_def w1 t round_def)
  ultimately have "result = [Num (3 / 2), Num (7 / 2)]"
    by (simp add: ab)
  with r show ?thesis by simp
qed

lemma ratio_48000_44100:
  "toDouble (48000 / 44100) = 4901877145437275 / 4503599627370496"
  by (simp add: toDouble_def round_to_precision_def floor_log2.simps round_half_even_def Let_def)

lemma newLength_240:
  "toDouble (240 / (4901877145437275 / 4503599627370496)) = 7758154045587455 / 35184372088832"
  by (simp add: toDouble_def round_to_precision_def floor_log2.simps round_half_even_def Let_def)

lemma ratio_200763334:
  "toDouble (200763334 / 200763332) = 4503599672235259 / 4503599627370496"
  by (simp add: toDouble_def round_to_precision_def floor_log2.simps round_half_even_def Let_def)

lemma newLength_150572499:
  "toDouble (150572499 / (4503599672235259 / 4503599627370496)) = 301144995 / 2"
  by (simp add: toDouble_def round_to_precision_def floor_log2.simps round_half_even_def Let_def)

lemma offset_150572497:
  "toDouble (150572497 * (4503599672235259 / 4503599627370496)) = 301144997 / 2"
  by (simp add: toDouble_def round_to_precision_def floor_log2.simps round_half_even_def Let_def)

text \<open>
  In binary64, 240 samples from 48000 Hz to 44100 Hz give 220 samples, while
  \<open>round (240 * 44100 / 48000)\<close> is 221. With 150572499 samples and the rates 200763334 and
  200763332, the output has 150572498 elements and the window of the last one starts at
  150572499, the end of the buffer: it is empty and the element is \<open>0 / 0\<close>.
\<close>

theorem downsampleBuffer_counterexample:
  "map_sum id length (downsampleBuffer (replicate 240 (Num 0)) 48000 44100) = Inr 220 \<and>
   round (240 * 44100 / 48000 :: real) = 221 \<and>
   map_sum id length (downsampleBuffer (replicate 150572499 (Num 0)) 200763334 200763332) =
     Inr 150572498 \<and>
   snd (window (replicate 150572499 (Num 0)) (toDouble (200763334 / 200763332)) 150572497) = 0 \<and>
   map_sum id (\<lambda>result. result ! 150572497)
     (downsampleBuffer (replicate 150572499 (Num 0)) 200763334 200763332) = Inr NaN"
proof -
  have n1: "real (length (replicate 240 (Num 0))) = 240" by simp
  have l1: "round (toDouble (real (length (replicate 240 (Num 0))) / toDouble (48000 / 44100))) = 220"
    unfolding n1 ratio_48000_44100 newLength_240 by (simp add: round_def)
  obtain r1 where r1: "downsampleBuffer (replicate 240 (Num 0)) 48000 44100 = Inr r1"
    and len1: "int (length r1) = 220"
    using downsampleBuffer_spec [of 44100 48000 "replicate 240 (Num 0)"] unfolding l1 by auto
  have a: "map_sum id length (downsampleBuffer (replicate 240 (Num 0)) 48000 44100) = Inr 220"
    using len1 by (simp add: r1)
  have b: "round (240 * 44100 / 48000 :: real) = 221"
    by (simp add: round_def)
  define big where "big = replicate 150572499 (Num 0)"
  have lb: "length big = 150572499" by (simp add: big_def)
  have n2: "real (length big) = 150572499" by (simp add: lb)
  have l2: "round (toDouble (real (length big) / toDouble (200763334 / 200763332))) = 150572498"
    unfolding n2 ratio_200763334 newLength_150572499 by (simp add: round_def)
  obtain r2 where r2: "downsampleBuffer big 200763334 200763332 = Inr r2"
    and len2: "int (length r2) = 150572498"
    and elt2: "\<forall>k < length r2. r2 ! k =
       js_div (fst (window big (toDouble (200763334 / 200763332)) k))
         (Num (real (snd (window big (toDouble (200763334 / 200763332)) k))))"
    using downsampleBuffer_spec [of 200763332 200763334 big] unfolding l2 by auto
  have k2: "real 150572497 = 150572497" by simp
  have lo: "round (toDouble (real 150572497 * (4503599672235259 / 4503599627370496))) = 150572499"
    unfolding k2 offset_150572497 by (simp add: round_def)
  have w: "window big (toDouble (200763334 / 200763332)) 150572497 = (Num 0, 0)"
    unfolding window_def ratio_200763334 lo
    by (rule accumulate_stop) (simp add: lb)
  have c: "map_sum id length (downsampleBuffer big 200763334 200763332) = Inr 150572498"
    using len2 by (simp add: r2)
  have "150572497 < length r2" using len2 by linarith
  from elt2 [rule_format, OF this] have "r2 ! 150572497 = NaN"
    unfolding w by simp
  then have d: "map_sum id (\<lambda>result. result ! 150572497)
     (downsampleBuffer big 200763334 200763332) = Inr NaN"
    by (simp add: r2)
  show ?thesis
    using a b c d w unfolding big_def by simp
qed

text \<open>
  C8. Asked to upsample (\<open>outSampleRate > sampleRate\<close>), \<open>downsampleBuffer\<close> raises its
  error and returns no buffer, whatever the input; so does \<open>floatTo16BitPCM\<close>, which
  calls it.
\<close>

theorem downsampleBuffer_rejects_upsampling:
  assumes "sampleRate < outSampleRate"
  shows "downsampleBuffer input sampleRate outSampleRate =
           Inl (Error ''downsampling rate show be smaller than original sample rate'') \<and>
         floatTo16BitPCM input sampleRate outSampleRate =
           Inl (Error ''downsampling rate show be smaller than original sample rate'')"
  using assms by (simp add: downsampleBuffer_def floatTo16BitPCM_def)

theorem downsampleBuffer_rejects_upsampling_witness:
  "downsampleBuffer [Num 0, Num 1] 16000 48000 =
     Inl (Error ''downsampling rate show be smaller than original sample rate'')"
  using downsampleBuffer_rejects_upsampling [of 16000 48000 "[Num 0, Num 1]"] by simp

section \<open>Properties of the voice activity detector\<close>

lemma sum_squares_Num:
  "sum_squares (map Num xs) (Num a) = Num (a + (\<Sum>x\<leftarrow>xs. x * x))"
  by (induction xs arbitrary: a) (simp_all add: add.assoc)

lemma sum_squares_nonneg: "0 \<le> (\<Sum>x\<leftarrow>xs. x * (x::real))"
  by (induction xs) simp_all

lemma calculateRMS_Num:
  "xs \<noteq> [] \<Longrightarrow>
   calculateRMS (map Num xs) = Num (sqrt ((\<Sum>x\<leftarrow>xs. x * x) / real (length xs)))"
  using sum_squares_nonneg [of xs]
  by (simp add: calculateRMS_def sum_squares_Num not_less)

lemma sum_list_scaled: "(\<Sum>x\<leftarrow>xs. (c * x) * (c * x)) = c * c * (\<Sum>x\<leftarrow>xs. x * (x::real))"
  by (induction xs) (simp_all add: algebra_simps)

lemma calculateRMS_double:
  "calculateRMS (map Num (map ((*) 2) xs)) = js_mul (Num 2) (calculateRMS (map Num xs))"
proof (cases "xs = []")
  case True
  then show ?thesis by (simp add: calculateRMS_def)
next
  case False
  define q where "q = (\<Sum>x\<leftarrow>xs. x * x) / real (length xs)"
  have "(\<Sum>x\<leftarrow>map ((*) 2) xs. x * x) / real (length xs) = 4 * q"
    by (simp add: comp_def sum_list_const_mult q_def)
  then have "sqrt ((\<Sum>x\<leftarrow>map ((*) 2) xs. x * x) / real (length xs)) = sqrt (4 * q)"
    by (simp only:)
  also have "\<dots> = sqrt 4 * sqrt q"
    by (rule real_sqrt_mult)
  also have "sqrt 4 = (2::real)"
    using real_sqrt_abs [of 2] by simp
  finally have "sqrt ((\<Sum>x\<leftarrow>map ((*) 2) xs. x * x) / real (length xs)) =
      2 * sqrt ((\<Sum>x\<leftarrow>xs. x * x) / real (length xs))"
    by (simp only: q_def)
  then show ?thesis
    using False calculateRMS_Num [of xs] calculateRMS_Num [of "map ((*) 2) xs"] by simp
qed

lemma vad_signal_iff:
  "vad_signal \<in> set (snd (vad_stage s frame)) \<longleftrightarrow>
     js_gt (calculateRMS frame) (Num (vadThreshold s))"
  by (simp add: vad_stage_def Let_def)

text \<open>
  C7. The energy of a non-empty frame is the root mean square of its samples; doubling
  every sample doubles the energy, and a frame whose energy exceeds the threshold still
  exceeds it after doubling (for \<open>calculateRMS\<close> and for the VAD signal of the worklet).
\<close>

theorem rms_homogeneous:
  assumes "A \<noteq> []"
  shows "calculateRMS (map Num A) = Num (sqrt ((\<Sum>x\<leftarrow>A. x * x) / real (length A))) \<and>
         calculateRMS (map Num (map ((*) 2) A)) = js_mul (Num 2) (calculateRMS (map Num A)) \<and>
         (js_gt (calculateRMS (map Num A)) (Num threshold) \<longrightarrow>
          js_gt (calculateRMS (map Num (map ((*) 2) A))) (Num threshold)) \<and>
         (vad_signal \<in> set (snd (vad_stage s (map Num A))) \<longrightarrow>
          vad_signal \<in> set (snd (vad_stage s (map Num (map ((*) 2) A)))))"
proof -
  define e where "e = sqrt ((\<Sum>x\<leftarrow>A. x * x) / real (length A))"
  have e0: "0 \<le> e" using sum_squares_nonneg [of A] by (simp add: e_def)
  have a: "calculateRMS (map Num A) = Num e"
    using assms by (simp add: calculateRMS_Num e_def)
  have b: "calculateRMS (map Num (map ((*) 2) A)) = Num (2 * e)"
    unfolding calculateRMS_double a by simp
  have mono: "js_gt (Num e) (Num t) \<longrightarrow> js_gt (Num (2 * e)) (Num t)" for t
    using e0 by simp
  show ?thesis
    unfolding vad_signal_iff a b using mono by (simp add: e_def)
qed

theorem rms_homogeneous_witness:
  "[1 :: real] \<noteq> [] \<and> calculateRMS [Num 1] = Num 1 \<and> calculateRMS [Num 2] = Num 2 \<and>
   js_gt (calculateRMS [Num 1]) (Num (1 / 2)) \<and> js_gt (calculateRMS [Num 2]) (Num (1 / 2)) \<and>
   vad_signal \<in> set (snd (vad_stage constructor [Num 1])) \<and>
   vad_signal \<in> set (snd (vad_stage constructor [Num 2]))"
  using rms_homogeneous [of "[1]" "1 / 2" constructor]
  by (simp add: vad_signal_iff constructor_def)

section \<open>Properties of the playback scheduler\<close>

lemma playAudio_Inr:
  assumes "audioContext s" and "int16Array \<noteq> []"
  shows "playAudio s now int16Array =
     Inr (s\<lparr>activeSourceNodes := activeSourceNodes s @ [length (nodes s)],
            nextStartTime := (if nextStartTime s < now then now else nextStartTime s) +
               real (length int16Array) / 22000,
            nodes := nodes s @
              [\<lparr>samples = base64ToFloat32 int16Array,
                duration = real (length int16Array) / 22000,
                startedAt = Some (if nextStartTime s < now then now else nextStartTime s),
                stopped = False\<rparr>]\<rparr>)"
  using assms
  by (simp add: playAudio_def Let_def RECEIVE_SAMPLE_RATE_def base64ToFloat32_def)




lemma length_stop_sources [simp]: "length (stop_sources ids ns) = length ns"
  by (induction ids arbitrary: ns) simp_all

lemma stopped_stop_sources:
  "i < length ns \<Longrightarrow>
   stopped (stop_sources ids ns ! i) \<longleftrightarrow> i \<in> set ids \<or> stopped (ns ! i)"
  by (induction ids arbitrary: ns) (auto simp: nth_list_update)

text \<open>
  C5. With an audio context, \<open>stopAudioPlayback\<close> at clock time \<open>now\<close> stops every
  active source node, empties the active set and sets \<open>nextStartTime\<close> to \<open>now\<close>; an
  enqueue at any later time \<open>now2\<close> then starts its unit at \<open>now2\<close>.
\<close>

theorem stopAudioPlayback_cancels_all:
  assumes "audioContext s" and "\<forall>i \<in> set (activeSourceNodes s). i < length (nodes s)"
  shows "let s' = stopAudioPlayback s now
         in activeSourceNodes s' = [] \<and> nextStartTime s' = now \<and>
            length (nodes s') = length (nodes s) \<and>
            (\<forall>i \<in> set (activeSourceNodes s). stopped (nodes s' ! i)) \<and>
            (\<forall>now2 chunk. chunk \<noteq> [] \<and> now \<le> now2 \<longrightarrow>
               (\<exists>s''. playAudio s' now2 chunk = Inr s'' \<and>
                  startedAt (last (nodes s'')) = Some now2))"
proof -
  define s' where "s' = stopAudioPlayback s now"
  have a: "activeSourceNodes s' = []" "nextStartTime s' = now" "audioContext s'"
    "nodes s' = stop_sources (activeSourceNodes s) (nodes s)"
    using assms(1) by (simp_all add: s'_def stopAudioPlayback_def Let_def)
  have st: "\<forall>i \<in> set (activeSourceNodes s). stopped (nodes s' ! i)"
    using assms(2) by (simp add: a stopped_stop_sources)
  have nx: "\<exists>s''. playAudio s' now2 chunk = Inr s'' \<and> startedAt (last (nodes s'')) = Some now2"
    if "chunk \<noteq> []" "now \<le> now2" for now2 chunk
    using that a by (auto simp: playAudio_Inr)
  show ?thesis
    unfolding Let_def s'_def [symmetric] using a st nx by simp
qed

theorem stopAudioPlayback_cancels_all_witness:
  "let node = \<lparr>samples = [Num 0], duration = 1 / 22000, startedAt = Some 0, stopped = False\<rparr>;
       s = \<lparr>audioContext = True, nextStartTime = 7, activeSourceNodes = [0, 1],
            isAIResponding = True, nodes = [node, node]\<rparr>;
       s' = stopAudioPlayback s 3
   in activeSourceNodes s' = [] \<and> nextStartTime s' = 3 \<and>
      stopped (nodes s' ! 0) \<and> stopped (nodes s' ! 1) \<and>
      (\<exists>s''. playAudio s' 4 [1] = Inr s'' \<and> startedAt (last (nodes s'')) = Some 4)"
proof -
  define node where "node = \<lparr>samples = [Num 0], duration = 1 / 22000, startedAt = Some (0::real),
    stopped = False\<rparr>"
  define s where "s = \<lparr>audioContext = True, nextStartTime = 7, activeSourceNodes = [0, 1],
            isAIResponding = True, nodes = [node, node]\<rparr>"
  have h: "audioContext s" "\<forall>i \<in> set (activeSourceNodes s). i < length (nodes s)"
    by (simp_all add: s_def)
  from stopAudioPlayback_cancels_all [OF h, of 3] show ?thesis
    unfolding Let_def node_def [symmetric] s_def [symmetric]
    by (simp add: s_def)
qed


section \<open>Properties of the capture worklet\<close>

lemma flush_residue:
  "flush (s\<lparr>residue := r\<rparr>) = ((fst (flush s))\<lparr>residue := r\<rparr>, snd (flush s))"
  by (simp add: flush_def)

lemma store_sample_residue:
  "store_sample (s\<lparr>residue := r\<rparr>) v =
     ((fst (store_sample s v))\<lparr>residue := r\<rparr>, snd (store_sample s v))"
  by (simp add: store_sample_def Let_def flush_def)

lemma store_samples_residue:
  "store_samples (s\<lparr>residue := r\<rparr>) vs =
     ((fst (store_samples s vs))\<lparr>residue := r\<rparr>, snd (store_samples s vs))"
  by (induction vs arbitrary: s) (simp_all add: Let_def store_sample_residue)

lemma residue_store_sample [simp]: "residue (fst (store_sample s v)) = residue s"
  by (simp add: store_sample_def Let_def flush_def)

lemma residue_store_samples [simp]: "residue (fst (store_samples s vs)) = residue s"
  by (induction vs arbitrary: s) (simp_all add: Let_def)

lemma audio_chunks_append [simp]: "audio_chunks (xs @ ys) = audio_chunks xs @ audio_chunks ys"
  by (induction xs rule: audio_chunks.induct) simp_all

lemma flush_full:
  assumes "length (buffer s) = chunkSize s"
  shows "flush s = (s\<lparr>bufferIndex := 0\<rparr>, [audio_data (map sampleToInt16 (buffer s))])"
proof -
  have "map (\<lambda>i. sampleToInt16 (js_get (buffer s) (int i))) [0..<chunkSize s] =
        map (\<lambda>i. sampleToInt16 (buffer s ! i)) [0..<length (buffer s)]"
    using assms by (simp add: js_get_def)
  also have "\<dots> = map sampleToInt16 (buffer s)"
    by (rule nth_equalityI) simp_all
  finally show ?thesis by (simp add: flush_def)
qed

lemma store_sample_fill:
  assumes "buffer_ok s" and "Suc (bufferIndex s) < chunkSize s"
  shows "store_sample s v =
     (s\<lparr>buffer := (buffer s)[bufferIndex s := v], bufferIndex := Suc (bufferIndex s)\<rparr>, [])"
  using assms by (simp add: store_sample_def Let_def)

lemma store_sample_flush:
  assumes "buffer_ok s" and "Suc (bufferIndex s) = chunkSize s"
  shows "store_sample s v =
     (s\<lparr>buffer := (buffer s)[bufferIndex s := v], bufferIndex := 0\<rparr>,
      [audio_data (map sampleToInt16 (pending s @ [v]))])"
proof -
  have len: "length (buffer s) = Suc (bufferIndex s)"
    using assms by (simp add: buffer_ok_def)
  then have "(buffer s)[bufferIndex s := v] = take (bufferIndex s) (buffer s) @ [v]"
    by (simp add: upd_conv_take_nth_drop)
  then show ?thesis
    using assms len by (simp add: store_sample_def Let_def flush_full pending_def)
qed

lemma store_sample_spec:
  assumes "buffer_ok s"
  shows "buffer_ok (fst (store_sample s v))"
    and "chunkSize (fst (store_sample s v)) = chunkSize s"
    and "bufferIndex (fst (store_sample s v)) = Suc (bufferIndex s) mod chunkSize s"
    and "length (audio_chunks (snd (store_sample s v))) = Suc (bufferIndex s) div chunkSize s"
    and "\<forall>d \<in> set (audio_chunks (snd (store_sample s v))). length d = chunkSize s"
    and "concat (audio_chunks (snd (store_sample s v))) @
           map sampleToInt16 (pending (fst (store_sample s v))) =
         map sampleToInt16 (pending s @ [v])"
proof -
  have b: "bufferIndex s < chunkSize s" "length (buffer s) = chunkSize s"
    using assms by (simp_all add: buffer_ok_def)
  consider "Suc (bufferIndex s) < chunkSize s" | "Suc (bufferIndex s) = chunkSize s"
    using b by linarith
  then have "buffer_ok (fst (store_sample s v)) \<and>
    chunkSize (fst (store_sample s v)) = chunkSize s \<and>
    bufferIndex (fst (store_sample s v)) = Suc (bufferIndex s) mod chunkSize s \<and>
    length (audio_chunks (snd (store_sample s v))) = Suc (bufferIndex s) div chunkSize s \<and>
    (\<forall>d \<in> set (audio_chunks (snd (store_sample s v))). length d = chunkSize s) \<and>
    concat (audio_chunks (snd (store_sample s v))) @
           map sampleToInt16 (pending (fst (store_sample s v))) =
         map sampleToInt16 (pending s @ [v])"
  proof cases
    case 1
    then show ?thesis
      using b by (simp add: store_sample_fill [OF assms 1] buffer_ok_def pending_def
          take_Suc_conv_app_nth)
  next
    case 2
    then show ?thesis
      using b by (simp add: store_sample_flush [OF assms 2] buffer_ok_def pending_def)
  qed
  then show "buffer_ok (fst (store_sample s v))"
    and "chunkSize (fst (store_sample s v)) = chunkSize s"
    and "bufferIndex (fst (store_sample s v)) = Suc (bufferIndex s) mod chunkSize s"
    and "length (audio_chunks (snd (store_sample s v))) = Suc (bufferIndex s) div chunkSize s"
    and "\<forall>d \<in> set (audio_chunks (snd (store_sample s v))). length d = chunkSize s"
    and "concat (audio_chunks (snd (store_sample s v))) @
           map sampleToInt16 (pending (fst (store_sample s v))) =
         map sampleToInt16 (pending s @ [v])"
    by blast+
qed

lemma div_mod_step:
  fixes a b c :: nat
  shows "a div c + (a mod c + b) div c = (a + b) div c"
proof (cases "c = 0")
  case True
  then show ?thesis by simp
next
  case False
  have "(a + b) div c = (a div c * c + (a mod c + b)) div c"
    by (simp add: add.assoc [symmetric])
  also have "\<dots> = a div c + (a mod c + b) div c"
    using False by (rule div_mult_self3)
  finally show ?thesis by simp
qed

lemma store_samples_spec:
  assumes "buffer_ok s"
  shows "buffer_ok (fst (store_samples s vs)) \<and>
    chunkSize (fst (store_samples s vs)) = chunkSize s \<and>
    bufferIndex (fst (store_samples s vs)) = (bufferIndex s + length vs) mod chunkSize s \<and>
    length (audio_chunks (snd (store_samples s vs))) = (bufferIndex s + length vs) div chunkSize s \<and>
    (\<forall>d \<in> set (audio_chunks (snd (store_samples s vs))). length d = chunkSize s) \<and>
    concat (audio_chunks (snd (store_samples s vs))) @
           map sampleToInt16 (pending (fst (store_samples s vs))) =
         map sampleToInt16 (pending s @ vs)"
  using assms
proof (induction vs arbitrary: s)
  case Nil
  then show ?case by (simp add: buffer_ok_def)
next
  case (Cons v vs)
  define s1 where "s1 = fst (store_sample s v)"
  define m1 where "m1 = snd (store_sample s v)"
  note one = store_sample_spec [OF Cons.prems, of v, folded s1_def m1_def]
  note ih = Cons.IH [OF one(1), unfolded one(2)]
  have eq: "store_samples s (v # vs) = (fst (store_samples s1 vs), m1 @ snd (store_samples s1 vs))"
    by (simp add: Let_def s1_def m1_def)
  have idx: "(bufferIndex s1 + length vs) mod chunkSize s = (bufferIndex s + length (v # vs)) mod chunkSize s"
    unfolding one(3) by (simp add: mod_add_left_eq)
  have cnt: "length (audio_chunks m1) + (bufferIndex s1 + length vs) div chunkSize s =
     (bufferIndex s + length (v # vs)) div chunkSize s"
    unfolding one(3,4) using div_mod_step [of "Suc (bufferIndex s)" "chunkSize s" "length vs"]
    by simp
  have "concat (audio_chunks m1) @ concat (audio_chunks (snd (store_samples s1 vs))) @
     map sampleToInt16 (pending (fst (store_samples s1 vs))) =
     concat (audio_chunks m1) @ map sampleToInt16 (pending s1 @ vs)"
    using ih by (simp only:)
  also have "\<dots> = (concat (audio_chunks m1) @ map sampleToInt16 (pending s1)) @ map sampleToInt16 vs"
    by simp
  also have "\<dots> = map sampleToInt16 (pending s @ [v]) @ map sampleToInt16 vs"
    using one(6) by (simp only:)
  finally have str: "concat (audio_chunks m1) @ concat (audio_chunks (snd (store_samples s1 vs))) @
     map sampleToInt16 (pending (fst (store_samples s1 vs))) = map sampleToInt16 (pending s @ v # vs)"
    by simp
  have a: "buffer_ok (fst (store_samples s (v # vs)))"
    "chunkSize (fst (store_samples s (v # vs))) = chunkSize s"
    unfolding eq fst_conv using ih by simp_all
  have b: "bufferIndex (fst (store_samples s (v # vs))) = (bufferIndex s + length (v # vs)) mod chunkSize s"
    unfolding eq fst_conv using ih idx by (simp only:)
  have c: "length (audio_chunks (snd (store_samples s (v # vs)))) =
      (bufferIndex s + length (v # vs)) div chunkSize s"
    unfolding eq snd_conv audio_chunks_append length_append using ih cnt by (simp only:)
  have d: "\<forall>d \<in> set (audio_chunks (snd (store_samples s (v # vs)))). length d = chunkSize s"
    unfolding eq snd_conv audio_chunks_append using ih one(5) by auto
  have e: "concat (audio_chunks (snd (store_samples s (v # vs)))) @
           map sampleToInt16 (pending (fst (store_samples s (v # vs)))) =
         map sampleToInt16 (pending s @ v # vs)"
    unfolding eq snd_conv fst_conv audio_chunks_append concat_append append_assoc by (rule str)
  from a b c d e show ?case by blast
qed

lemma vad_stage_fields [simp]:
  "buffer (fst (vad_stage s cd)) = buffer s"
  "bufferIndex (fst (vad_stage s cd)) = bufferIndex s"
  "chunkSize (fst (vad_stage s cd)) = chunkSize s"
  "residue (fst (vad_stage s cd)) = residue s"
  "targetSampleRate (fst (vad_stage s cd)) = targetSampleRate s"
  "audio_chunks (snd (vad_stage s cd)) = []"
  by (simp_all add: vad_stage_def Let_def)

lemma vad_stage_ok [simp]:
  "buffer_ok (fst (vad_stage s cd)) = buffer_ok s"
  "pending (fst (vad_stage s cd)) = pending s"
  by (simp_all add: buffer_ok_def pending_def)

lemma targetSampleRate_store_sample [simp]:
  "targetSampleRate (fst (store_sample s v)) = targetSampleRate s"
  by (simp add: store_sample_def Let_def flush_def)

lemma targetSampleRate_store_samples [simp]:
  "targetSampleRate (fst (store_samples s vs)) = targetSampleRate s"
  by (induction vs arbitrary: s) (simp_all add: Let_def)

lemma feed_fields [simp]:
  "residue (fst (feed s cd out r)) = r"
  "targetSampleRate (fst (feed s cd out r)) = targetSampleRate s"
  by (simp_all add: feed_def Let_def)

lemma residue_update_ok [simp]:
  "buffer_ok (s\<lparr>residue := r\<rparr>) = buffer_ok s"
  "pending (s\<lparr>residue := r\<rparr>) = pending s"
  by (simp_all add: buffer_ok_def pending_def)

lemma feed_spec:
  assumes "buffer_ok s"
  shows "buffer_ok (fst (feed s cd out r)) \<and>
    chunkSize (fst (feed s cd out r)) = chunkSize s \<and>
    bufferIndex (fst (feed s cd out r)) = (bufferIndex s + length out) mod chunkSize s \<and>
    length (audio_chunks (snd (feed s cd out r))) = (bufferIndex s + length out) div chunkSize s \<and>
    (\<forall>d \<in> set (audio_chunks (snd (feed s cd out r))). length d = chunkSize s) \<and>
    concat (audio_chunks (snd (feed s cd out r))) @
           map sampleToInt16 (pending (fst (feed s cd out r))) =
         map sampleToInt16 (pending s @ out)"
proof -
  have ok: "buffer_ok (fst (vad_stage s cd))" using assms by simp
  show ?thesis
    using store_samples_spec [OF ok, of out]
    by (simp add: feed_def Let_def)
qed

lemma nn_loop_visits:
  assumes "visits ratio n r ps r'" and "n = length cd" and "residue s = r"
  shows "nn_loop ratio cd s out =
     Some ((fst (store_samples s (map (\<lambda>p. js_get cd \<lfloor>p\<rfloor>) ps)))\<lparr>residue := r'\<rparr>,
           out @ snd (store_samples s (map (\<lambda>p. js_get cd \<lfloor>p\<rfloor>) ps)))"
  using assms
proof (induction arbitrary: s out rule: visits.induct)
  case (visits_stop r n ratio)
  then have "nn_loop ratio cd s out = Some (s, out)"
    by (subst nn_loop.simps) simp
  moreover have "s\<lparr>residue := r\<rparr> = s"
    using visits_stop by simp
  ultimately show ?case by simp
next
  case (visits_step r n ratio ps r')
  define sm where "sm = store_sample s (js_get cd \<lfloor>r\<rfloor>)"
  define s1 where "s1 = (fst sm)\<lparr>residue := toDouble (r + ratio)\<rparr>"
  define vs where "vs = map (\<lambda>p. js_get cd \<lfloor>p\<rfloor>) ps"
  have lt: "residue s < real (length cd)" using visits_step by simp
  then have fl: "\<lfloor>residue s\<rfloor> < int (length cd)" by linarith
  have r1: "residue s1 = toDouble (r + ratio)" by (simp add: s1_def)
  have step: "nn_loop ratio cd s out = nn_loop ratio cd s1 (out @ snd sm)"
    using lt fl visits_step.prems(2)
    by (subst nn_loop.simps) (simp add: Let_def sm_def s1_def)
  have ih: "nn_loop ratio cd s1 (out @ snd sm) =
      Some ((fst (store_samples s1 vs))\<lparr>residue := r'\<rparr>,
            (out @ snd sm) @ snd (store_samples s1 vs))"
    unfolding vs_def by (rule visits_step.IH [OF visits_step.prems(1) r1])
  have ss: "store_samples s1 vs =
      ((fst (store_samples (fst sm) vs))\<lparr>residue := toDouble (r + ratio)\<rparr>,
       snd (store_samples (fst sm) vs))"
    unfolding s1_def by (simp add: store_samples_residue)
  have cons: "store_samples s (map (\<lambda>p. js_get cd \<lfloor>p\<rfloor>) (r # ps)) =
      (fst (store_samples (fst sm) vs), snd sm @ snd (store_samples (fst sm) vs))"
    by (simp add: Let_def sm_def vs_def)
  show ?case
    unfolding step ih ss cons by simp
qed


text \<open>
  The loop ends: a binary64 sum \<open>residue + ratio\<close> below \<open>2^52 * ratio\<close> exceeds \<open>residue\<close>
  by at least half of \<open>ratio\<close>.
\<close>

lemma residue_progress:
  assumes "0 < ratio" and "0 \<le> r" and "r < real n" and "real n \<le> (2 ^ 52 - 1) * ratio"
  shows "r + ratio / 2 \<le> toDouble (r + ratio)"
proof -
  define x where "x = r + ratio"
  have x0: "0 \<le> x" using assms(1,2) by (simp add: x_def)
  have "real n + ratio \<le> 4503599627370496 * ratio"
    using assms(4) by (simp add: algebra_simps)
  with assms(3) have "x \<le> 4503599627370496 * ratio" by (simp add: x_def)
  with toDouble_bounds(1) [OF x0] have "x - ratio / 2 \<le> toDouble x" by linarith
  then show ?thesis by (simp add: x_def)
qed

lemma visits_total:
  assumes "0 < ratio" and "0 \<le> r" and "real n \<le> (2 ^ 52 - 1) * ratio"
  shows "\<exists>ps r'. visits ratio n r ps r' \<and> real n \<le> r'"
  using assms(2)
proof (induction "nat \<lceil>2 * (real n - r) / ratio\<rceil>" arbitrary: r rule: less_induct)
  case less
  show ?case
  proof (cases "r < real n")
    case False
    then have "visits ratio n r [] r" by (rule visits_stop)
    moreover from False have "real n \<le> r" by simp
    ultimately show ?thesis by blast
  next
    case True
    define r1 where "r1 = toDouble (r + ratio)"
    have p: "r + ratio / 2 \<le> r1"
      unfolding r1_def by (rule residue_progress [OF assms(1) less.prems True assms(3)])
    then have r1: "0 \<le> r1" using less.prems assms(1) by linarith
    have "2 * (real n - r1) \<le> 2 * (real n - r) - ratio" using p by (simp add: algebra_simps)
    then have "2 * (real n - r1) / ratio \<le> (2 * (real n - r) - ratio) / ratio"
      using assms(1) by (simp only: divide_right_mono less_imp_le)
    also have "\<dots> = 2 * (real n - r) / ratio - 1"
      using assms(1) by (simp add: field_simps)
    finally have "\<lceil>2 * (real n - r1) / ratio\<rceil> \<le> \<lceil>2 * (real n - r) / ratio - 1\<rceil>"
      by (rule ceiling_mono)
    then have c: "\<lceil>2 * (real n - r1) / ratio\<rceil> \<le> \<lceil>2 * (real n - r) / ratio\<rceil> - 1"
      by simp
    have "0 < 2 * (real n - r) / ratio" using True assms(1) by simp
    then have "0 < \<lceil>2 * (real n - r) / ratio\<rceil>" by (simp add: less_ceiling_iff)
    with c have "nat \<lceil>2 * (real n - r1) / ratio\<rceil> < nat \<lceil>2 * (real n - r) / ratio\<rceil>"
      by linarith
    from less.hyps [OF this r1] obtain ps r' where
      v: "visits ratio n r1 ps r'" and e: "real n \<le> r'" by blast
    have "visits ratio n r (r # ps) r'"
      using True v unfolding r1_def by (rule visits_step)
    with e show ?thesis by blast
  qed
qed

lemma visits_det:
  assumes "visits ratio n r ps r'" and "visits ratio n r ps2 r2"
  shows "ps2 = ps \<and> r2 = r'"
  using assms
proof (induction arbitrary: ps2 r2 rule: visits.induct)
  case (visits_stop r n ratio)
  from visits_stop(2) visits_stop(1) show ?case
    by (cases rule: visits.cases) simp_all
next
  case (visits_step r n ratio ps r')
  from visits_step.prems visits_step.hyps(1) obtain ps3 where
    "ps2 = r # ps3" "visits ratio n (toDouble (r + ratio)) ps3 r2"
    by (cases rule: visits.cases) simp_all
  with visits_step.IH [of ps3 r2] show ?case by simp
qed

lemma resampled_det:
  assumes "resampled ratio r frames stream" and "resampled ratio r frames stream2"
  shows "stream2 = stream"
  using assms
proof (induction arbitrary: stream2 rule: resampled.induct)
  case (resampled_Nil ratio r)
  then show ?case by (cases rule: resampled.cases) simp_all
next
  case (resampled_fast ratio r frames rest channelData)
  from resampled_fast.prems resampled_fast.hyps(1) obtain rest2 where
    "stream2 = channelData @ rest2" "resampled ratio r frames rest2"
    by (cases rule: resampled.cases) simp_all
  with resampled_fast.IH [of rest2] show ?case by simp
next
  case (resampled_Cons ratio channelData r ps r' frames rest)
  from resampled_Cons.prems resampled_Cons.hyps(1) obtain ps2 r2 rest2 where
    s: "stream2 = map (\<lambda>p. js_get channelData \<lfloor>p\<rfloor>) ps2 @ rest2"
    and v: "visits ratio (length channelData) r ps2 r2"
    and t: "resampled ratio (toDouble (r2 - real (length channelData))) frames rest2"
    by (cases rule: resampled.cases) simp_all
  from visits_det [OF resampled_Cons.hyps(2) v] have e: "ps2 = ps" "r2 = r'" by simp_all
  from resampled_Cons.IH [of rest2] t e have "rest2 = rest" by simp
  with s e show ?case by simp
qed

lemma toDouble_1: "toDouble 1 = 1"
  using toDouble_of_nat [of 1] by simp

lemma process_ratio_1:
  assumes "toDouble (sampleRate / targetSampleRate s) = 1"
  shows "process s [cd] sampleRate = Some (feed s cd cd (residue s))"
proof -
  have "(fst (store_samples (fst (vad_stage s cd)) cd))\<lparr>residue := residue s\<rparr> =
        fst (store_samples (fst (vad_stage s cd)) cd)"
    by (rule AudioProcessor.equality) simp_all
  then show ?thesis
    using assms by (simp add: process_def Let_def feed_def)
qed

lemma process_fast:
  assumes "targetSampleRate s \<noteq> 0"
  shows "process s [cd] (targetSampleRate s) = Some (feed s cd cd (residue s))"
  using assms by (intro process_ratio_1) (simp add: toDouble_1)

lemma process_visits:
  assumes "toDouble (sampleRate / targetSampleRate s) \<noteq> 1"
    and "visits (toDouble (sampleRate / targetSampleRate s)) (length cd) (residue s) ps r'"
  shows "process s [cd] sampleRate =
     Some (feed s cd (map (\<lambda>p. js_get cd \<lfloor>p\<rfloor>) ps) (toDouble (r' - real (length cd))))"
proof -
  define s0 where "s0 = fst (vad_stage s cd)"
  have r0: "residue s0 = residue s" by (simp add: s0_def)
  note l = nn_loop_visits [OF assms(2) refl r0, of "[]"]
  show ?thesis
    using assms(1) by (simp add: process_def Let_def l s0_def [symmetric] feed_def)
qed


lemma process_feed:
  assumes "0 < sampleRate" and "0 < targetSampleRate s" and "0 \<le> residue s"
    and "real (length cd) \<le> (2 ^ 52 - 1) * toDouble (sampleRate / targetSampleRate s)"
  shows "\<exists>out r1. process s [cd] sampleRate = Some (feed s cd out r1) \<and> 0 \<le> r1 \<and>
     (\<forall>frames rest. resampled (toDouble (sampleRate / targetSampleRate s)) r1 frames rest \<longrightarrow>
        resampled (toDouble (sampleRate / targetSampleRate s)) (residue s) (cd # frames)
          (out @ rest))"
proof (cases "toDouble (sampleRate / targetSampleRate s) = 1")
  case True
  have "process s [cd] sampleRate = Some (feed s cd cd (residue s))"
    using True by (rule process_ratio_1)
  moreover have "\<forall>frames rest.
      resampled (toDouble (sampleRate / targetSampleRate s)) (residue s) frames rest \<longrightarrow>
      resampled (toDouble (sampleRate / targetSampleRate s)) (residue s) (cd # frames) (cd @ rest)"
    using True by (auto intro: resampled_fast)
  ultimately show ?thesis using assms(3) by blast
next
  case False
  define ratio where "ratio = toDouble (sampleRate / targetSampleRate s)"
  have ratio: "0 < ratio"
    unfolding ratio_def using assms(1,2) by (intro toDouble_pos) simp
  from visits_total [OF ratio assms(3), of "length cd"] assms(4) obtain ps r' where
    v: "visits ratio (length cd) (residue s) ps r'" and e: "real (length cd) \<le> r'"
    unfolding ratio_def by blast
  define r1 where "r1 = toDouble (r' - real (length cd))"
  have r1: "0 \<le> r1" unfolding r1_def using e by (intro toDouble_nonneg) simp
  have p: "process s [cd] sampleRate =
      Some (feed s cd (map (\<lambda>p. js_get cd \<lfloor>p\<rfloor>) ps) r1)"
    unfolding r1_def using False v unfolding ratio_def by (rule process_visits)
  have "\<forall>frames rest. resampled ratio r1 frames rest \<longrightarrow>
      resampled ratio (residue s) (cd # frames) (map (\<lambda>p. js_get cd \<lfloor>p\<rfloor>) ps @ rest)"
    using False v unfolding r1_def ratio_def by (auto intro: resampled_Cons)
  with p r1 show ?thesis unfolding ratio_def by blast
qed

lemma callbacks_process_spec:
  assumes "0 < sampleRate" and "0 < targetSampleRate s" and "buffer_ok s" and "0 \<le> residue s"
    and "\<forall>cd \<in> set frames.
           real (length cd) \<le> (2 ^ 52 - 1) * toDouble (sampleRate / targetSampleRate s)"
  shows "\<exists>s' msgs stream.
     callbacks process s (map (\<lambda>channelData. [channelData]) frames) sampleRate = Some (s', msgs) \<and>
     resampled (toDouble (sampleRate / targetSampleRate s)) (residue s) frames stream \<and>
     buffer_ok s' \<and> chunkSize s' = chunkSize s \<and>
     (\<forall>d \<in> set (audio_chunks msgs). length d = chunkSize s) \<and>
     length (audio_chunks msgs) = (bufferIndex s + length stream) div chunkSize s \<and>
     bufferIndex s' = (bufferIndex s + length stream) mod chunkSize s \<and>
     concat (audio_chunks msgs) @ map sampleToInt16 (pending s') =
       map sampleToInt16 (pending s @ stream)"
  using assms(2,3,4,5)
proof (induction frames arbitrary: s)
  case Nil
  have "resampled (toDouble (sampleRate / targetSampleRate s)) (residue s) [] []"
    by (rule resampled_Nil)
  with Nil show ?case by (auto simp: buffer_ok_def)
next
  case (Cons cd frames)
  define ratio where "ratio = toDouble (sampleRate / targetSampleRate s)"
  have size: "real (length cd) \<le> (2 ^ 52 - 1) * toDouble (sampleRate / targetSampleRate s)"
    using Cons.prems(4) by simp
  from process_feed [OF assms(1) Cons.prems(1,3) size] obtain out r where
    p0: "process s [cd] sampleRate = Some (feed s cd out r)" and r: "0 \<le> r"
    and res: "\<forall>frames rest. resampled ratio r frames rest \<longrightarrow>
        resampled ratio (residue s) (cd # frames) (out @ rest)"
    unfolding ratio_def by blast
  define s1 where "s1 = fst (feed s cd out r)"
  define m1 where "m1 = snd (feed s cd out r)"
  have p: "process s [cd] sampleRate = Some (s1, m1)"
    using p0 by (simp add: s1_def m1_def)
  note f = feed_spec [OF Cons.prems(2), of cd out r, folded s1_def m1_def]
  have t1: "targetSampleRate s1 = targetSampleRate s" "residue s1 = r"
    by (simp_all add: s1_def)
  have ok1: "buffer_ok s1" "0 < targetSampleRate s1" "0 \<le> residue s1"
    using f Cons.prems(1) t1 r by simp_all
  have size1: "\<forall>cd \<in> set frames.
      real (length cd) \<le> (2 ^ 52 - 1) * toDouble (sampleRate / targetSampleRate s1)"
    using Cons.prems(4) by (simp add: t1)
  from Cons.IH [OF ok1(2) ok1(1) ok1(3) size1] obtain s' m2 rest where
    pa: "callbacks process s1 (map (\<lambda>channelData. [channelData]) frames) sampleRate = Some (s', m2)"
    and rs: "resampled ratio r frames rest"
    and ok: "buffer_ok s'" "chunkSize s' = chunkSize s1"
    and len: "\<forall>d \<in> set (audio_chunks m2). length d = chunkSize s1"
    and cnt: "length (audio_chunks m2) = (bufferIndex s1 + length rest) div chunkSize s1"
    and idx: "bufferIndex s' = (bufferIndex s1 + length rest) mod chunkSize s1"
    and str: "concat (audio_chunks m2) @ map sampleToInt16 (pending s') =
       map sampleToInt16 (pending s1 @ rest)"
    unfolding t1 ratio_def by blast
  have whole: "resampled ratio (residue s) (cd # frames) (out @ rest)"
    using res rs by blast
  have run: "callbacks process s (map (\<lambda>channelData. [channelData]) (cd # frames)) sampleRate =
      Some (s', m1 @ m2)"
    by (simp add: p pa)
  have cs: "chunkSize s1 = chunkSize s" using f by simp
  have a: "\<forall>d \<in> set (audio_chunks (m1 @ m2)). length d = chunkSize s"
    using f len cs by auto
  have b: "length (audio_chunks (m1 @ m2)) = (bufferIndex s + length (out @ rest)) div chunkSize s"
  proof -
    have "length (audio_chunks (m1 @ m2)) =
        (bufferIndex s + length out) div chunkSize s +
        ((bufferIndex s + length out) mod chunkSize s + length rest) div chunkSize s"
      using f cnt cs by simp
    then show ?thesis
      by (simp add: div_mod_step add.assoc)
  qed
  have c: "bufferIndex s' = (bufferIndex s + length (out @ rest)) mod chunkSize s"
  proof -
    have "bufferIndex s' = ((bufferIndex s + length out) mod chunkSize s + length rest) mod chunkSize s"
      using f idx cs by simp
    then show ?thesis
      by (simp add: mod_add_left_eq add.assoc)
  qed
  have d: "concat (audio_chunks (m1 @ m2)) @ map sampleToInt16 (pending s') =
       map sampleToInt16 (pending s @ out @ rest)"
  proof -
    have "concat (audio_chunks (m1 @ m2)) @ map sampleToInt16 (pending s') =
        concat (audio_chunks m1) @ map sampleToInt16 (pending s1 @ rest)"
      using str by simp
    also have "\<dots> = (concat (audio_chunks m1) @ map sampleToInt16 (pending s1)) @
        map sampleToInt16 rest"
      by simp
    also have "concat (audio_chunks m1) @ map sampleToInt16 (pending s1) =
        map sampleToInt16 (pending s @ out)"
      using f by simp
    finally show ?thesis by simp
  qed
  show ?case
    unfolding ratio_def [symmetric]
    using run whole ok cs a b c d by (intro exI [of _ s'] exI [of _ "m1 @ m2"] exI [of _ "out @ rest"]) simp
qed

text \<open>
  C6. Whatever frames the callbacks of \<open>process\<close> receive, every chunk posted has
  exactly \<open>chunkSize\<close> samples; the number of chunks is the number of samples of the
  resampled stream (with those already buffered) divided by \<open>chunkSize\<close>, so exactly \<open>N\<close>
  chunks for \<open>N * chunkSize\<close> samples; the remainder is never posted: it stays in the
  buffer, below \<open>bufferIndex\<close>, and the chunks followed by it are the resampled stream in
  order. The resampled stream is the one \<open>process\<close> stores, with its binary64 positions;
  the callbacks all return for frames of at most \<open>(2^52 - 1) * ratio\<close> samples.
\<close>

theorem outbound_chunk_size:
  assumes "0 < sampleRate" and "0 < targetSampleRate s" and "buffer_ok s" and "0 \<le> residue s"
    and "\<forall>channelData \<in> set frames.
           real (length channelData) \<le> (2 ^ 52 - 1) * toDouble (sampleRate / targetSampleRate s)"
  shows "\<exists>s' msgs stream.
     callbacks process s (map (\<lambda>channelData. [channelData]) frames) sampleRate = Some (s', msgs) \<and>
     resampled (toDouble (sampleRate / targetSampleRate s)) (residue s) frames stream \<and>
     (\<forall>stream'. resampled (toDouble (sampleRate / targetSampleRate s)) (residue s) frames stream'
        \<longrightarrow> stream' = stream) \<and>
     (\<forall>d \<in> set (audio_chunks msgs). length d = chunkSize s) \<and>
     length (audio_chunks msgs) = (bufferIndex s + length stream) div chunkSize s \<and>
     bufferIndex s' = (bufferIndex s + length stream) mod chunkSize s \<and>
     concat (audio_chunks msgs) @ map sampleToInt16 (pending s') =
       map sampleToInt16 (pending s @ stream)"
proof -
  from callbacks_process_spec [OF assms] obtain s' msgs stream where
    a: "callbacks process s (map (\<lambda>channelData. [channelData]) frames) sampleRate = Some (s', msgs)"
    and b: "resampled (toDouble (sampleRate / targetSampleRate s)) (residue s) frames stream"
    and c: "\<forall>d \<in> set (audio_chunks msgs). length d = chunkSize s"
      "length (audio_chunks msgs) = (bufferIndex s + length stream) div chunkSize s"
      "bufferIndex s' = (bufferIndex s + length stream) mod chunkSize s"
      "concat (audio_chunks msgs) @ map sampleToInt16 (pending s') =
         map sampleToInt16 (pending s @ stream)"
    by blast
  have "\<forall>stream'. resampled (toDouble (sampleRate / targetSampleRate s)) (residue s) frames stream'
        \<longrightarrow> stream' = stream"
    using resampled_det [OF b] by blast
  with a b c show ?thesis by blast
qed

lemma constructor_ok: "buffer_ok constructor" "0 < targetSampleRate constructor"
  by (simp_all add: constructor_def buffer_ok_def)

lemma toDouble_small:
  "toDouble 2 = 2" "toDouble 4 = 4" "toDouble 6 = 6"
  using toDouble_of_nat [of 2] toDouble_of_nat [of 4] toDouble_of_nat [of 6] by simp_all

lemma resampled_example:
  "resampled 2 0 [[Num 1, Num 2, Num 3, Num 4, Num 5, Num 6], [Num 7, Num 8, Num 9]]
     [Num 1, Num 3, Num 5, Num 7, Num 9]"
proof -
  define X where "X = [Num 1, Num 2, Num 3, Num 4, Num 5, Num 6]"
  define Y where "Y = [Num 7, Num 8, Num 9]"
  have lX: "length X = 6" and lY: "length Y = 3" by (simp_all add: X_def Y_def)
  have "visits 2 6 6 [] 6" by (rule visits_stop) simp
  then have "visits 2 6 4 [4] 6"
    using visits_step [of 4 6 2 "[]" 6] by (simp add: toDouble_small)
  then have "visits 2 6 2 [2, 4] 6"
    using visits_step [of 2 6 2 "[4]" 6] by (simp add: toDouble_small)
  then have vX: "visits 2 (length X) 0 [0, 2, 4] 6"
    using visits_step [of 0 6 2 "[2, 4]" 6] by (simp add: toDouble_small lX)
  have "visits 2 3 4 [] 4" by (rule visits_stop) simp
  then have "visits 2 3 2 [2] 4"
    using visits_step [of 2 3 2 "[]" 4] by (simp add: toDouble_small)
  then have vY: "visits 2 (length Y) 0 [0, 2] 4"
    using visits_step [of 0 3 2 "[2]" 4] by (simp add: toDouble_small lY)
  have two: "(2::real) \<noteq> 1" by simp
  have "resampled 2 (toDouble (4 - real (length Y))) [] []" by (rule resampled_Nil)
  then have "resampled 2 0 [Y] (map (\<lambda>p. js_get Y \<lfloor>p\<rfloor>) [0, 2 :: real] @ [])"
    by (rule resampled_Cons [OF two vY])
  then have "resampled 2 (toDouble (6 - real (length X))) [Y]
      (map (\<lambda>p. js_get Y \<lfloor>p\<rfloor>) [0, 2 :: real] @ [])"
    by (simp add: lX)
  then have "resampled 2 0 [X, Y]
      (map (\<lambda>p. js_get X \<lfloor>p\<rfloor>) [0, 2, 4 :: real] @
       map (\<lambda>p. js_get Y \<lfloor>p\<rfloor>) [0, 2 :: real] @ [])"
    by (rule resampled_Cons [OF two vX])
  then show ?thesis
    by (simp add: X_def Y_def js_get_def)
qed

theorem outbound_chunk_size_witness:
  "\<exists>s' msgs.
     callbacks process (constructor\<lparr>chunkSize := 2, buffer := [Num 0, Num 0]\<rparr>)
       [[[Num 1, Num 2, Num 3, Num 4, Num 5, Num 6]], [[Num 7, Num 8, Num 9]]] 32000
       = Some (s', msgs) \<and>
     length (audio_chunks msgs) = 2 \<and> bufferIndex s' = 1 \<and>
     (\<forall>d \<in> set (audio_chunks msgs). length d = 2) \<and>
     concat (audio_chunks msgs) @ map sampleToInt16 (pending s') =
       map sampleToInt16 [Num 1, Num 3, Num 5, Num 7, Num 9]"
proof -
  define s where "s = constructor\<lparr>chunkSize := 2, buffer := [Num 0, Num 0]\<rparr>"
  define frames where
    "frames = [[Num 1, Num 2, Num 3, Num 4, Num 5, Num 6], [Num 7, Num 8, Num 9]]"
  have t: "toDouble (32000 / targetSampleRate s) = 2" "residue s = 0" "bufferIndex s = 0"
    "chunkSize s = 2" "pending s = []"
    by (simp_all add: s_def constructor_def pending_def toDouble_small)
  have h: "0 < (32000::real)" "0 < targetSampleRate s" "buffer_ok s" "0 \<le> residue s"
    "\<forall>channelData \<in> set frames.
       real (length channelData) \<le> (2 ^ 52 - 1) * toDouble (32000 / targetSampleRate s)"
    unfolding t by (simp_all add: s_def constructor_def buffer_ok_def frames_def)
  from outbound_chunk_size [OF h] obtain s' msgs stream where
    run: "callbacks process s (map (\<lambda>channelData. [channelData]) frames) 32000 = Some (s', msgs)"
    and r: "resampled 2 0 frames stream"
    and u: "\<forall>stream'. resampled 2 0 frames stream' \<longrightarrow> stream' = stream"
    and a: "\<forall>d \<in> set (audio_chunks msgs). length d = 2"
    and b: "length (audio_chunks msgs) = (0 + length stream) div 2"
    and c: "bufferIndex s' = (0 + length stream) mod 2"
    and d: "concat (audio_chunks msgs) @ map sampleToInt16 (pending s') =
       map sampleToInt16 ([] @ stream)"
    unfolding t by blast
  have st: "stream = [Num 1, Num 3, Num 5, Num 7, Num 9]"
    using u resampled_example unfolding frames_def by blast
  from b have b': "length (audio_chunks msgs) = 2" by (simp add: st)
  from c have c': "bufferIndex s' = 1" by (simp add: st)
  from d have d': "concat (audio_chunks msgs) @ map sampleToInt16 (pending s') =
       map sampleToInt16 [Num 1, Num 3, Num 5, Num 7, Num 9]" by (simp add: st)
  have run': "callbacks process s
       [[[Num 1, Num 2, Num 3, Num 4, Num 5, Num 6]], [[Num 7, Num 8, Num 9]]] 32000
       = Some (s', msgs)"
    using run by (simp add: frames_def)
  show ?thesis
    unfolding s_def [symmetric] using run' a b' c' d' by blast
qed

text \<open>
  C9. With equal rates \<open>downsampleBuffer\<close> returns its input unchanged, and the fast
  path of \<open>process\<close> (\<open>ratio === 1\<close>) stores exactly the samples of the frame, in
  order, leaving the carry as it was.
\<close>

theorem resampler_identity:
  "downsampleBuffer input rate rate = Inr input \<and>
   floatTo16BitPCM input rate rate = Inr (convertFloat32ToInt16 input) \<and>
   (targetSampleRate s \<noteq> 0 \<longrightarrow>
      process s [channelData] (targetSampleRate s) = Some (feed s channelData channelData (residue s))) \<and>
   (targetSampleRate s \<noteq> 0 \<and> buffer_ok s \<longrightarrow>
      (\<exists>s' msgs. process s [channelData] (targetSampleRate s) = Some (s', msgs) \<and>
         residue s' = residue s \<and>
         concat (audio_chunks msgs) @ map sampleToInt16 (pending s') =
           map sampleToInt16 (pending s @ channelData)))"
proof -
  have a: "downsampleBuffer input rate rate = Inr input"
    by (simp add: downsampleBuffer_def)
  then have b: "floatTo16BitPCM input rate rate = Inr (convertFloat32ToInt16 input)"
    by (simp add: floatTo16BitPCM_def)
  have c: "process s [channelData] (targetSampleRate s) =
      Some (feed s channelData channelData (residue s))" if "targetSampleRate s \<noteq> 0"
    using that by (rule process_fast)
  have d: "\<exists>s' msgs. process s [channelData] (targetSampleRate s) = Some (s', msgs) \<and>
         residue s' = residue s \<and>
         concat (audio_chunks msgs) @ map sampleToInt16 (pending s') =
           map sampleToInt16 (pending s @ channelData)"
    if "targetSampleRate s \<noteq> 0" "buffer_ok s"
    using c [OF that(1)] feed_spec [OF that(2), of channelData channelData "residue s"]
    by (metis feed_fields(1) prod.collapse)
  from a b c d show ?thesis by blast
qed

theorem resampler_identity_witness:
  "downsampleBuffer [Num 1, Num 2] 16000 16000 = Inr [Num 1, Num 2] \<and>
   (\<exists>s' msgs. process constructor [[Num 1, Num 2]] 16000 = Some (s', msgs) \<and>
      residue s' = 0 \<and>
      concat (audio_chunks msgs) @ map sampleToInt16 (pending s') =
        map sampleToInt16 [Num 1, Num 2])"
proof -
  have t: "targetSampleRate constructor = 16000" "residue constructor = 0"
    "pending constructor = []"
    by (simp_all add: constructor_def pending_def)
  have h: "targetSampleRate constructor \<noteq> 0 \<and> buffer_ok constructor"
    using constructor_ok by simp
  from resampler_identity [of "[Num 1, Num 2]" 16000 constructor "[Num 1, Num 2]"] h
  have "downsampleBuffer [Num 1, Num 2] 16000 16000 = Inr [Num 1, Num 2]"
    and "\<exists>s' msgs. process constructor [[Num 1, Num 2]] (targetSampleRate constructor) =
         Some (s', msgs) \<and> residue s' = residue constructor \<and>
         concat (audio_chunks msgs) @ map sampleToInt16 (pending s') =
           map sampleToInt16 (pending constructor @ [Num 1, Num 2])"
    by blast+
  then show ?thesis unfolding t by simp
qed






















lemma length_lerp_samples [simp]:
  "length (lerp_samples ratio r cd) = resample_count ratio r (length cd)"
  by (simp add: lerp_samples_def)


















end
